theory Spec2Isabelle
  imports Main "HOL-Library.Word"
begin

unbundle bit_operations_syntax

section \<open>Data model of the triangle node numbering (p4est\_tnodes)\<close>

text \<open>
  The C integers \<open>int\<close>, \<open>p4est_locidx_t\<close> (32 bit) and \<open>p4est_gloidx_t\<close> (64 bit) are
  modelled as \<open>int\<close>: the construction asserts \<open>lel * vn \<le> P4EST_LOCIDX_MAX\<close>, every
  quantity below is an index or a count bounded by that product, and no statement of this
  theory depends on wrap-around.  The \<open>uint8_t\<close> configuration and the \<open>int8_t\<close> face code
  are 8-bit words.  Pointers into \<open>sc_array_t\<close> storage (\<open>owner\<close>, \<open>ownsort\<close>,
  \<open>remosort\<close>, \<open>sortp\<close>) are indices into the array they point to.
\<close>

datatype p4est_connect_type = P4EST_CONNECT_FACE | P4EST_CONNECT_CORNER

record tnodes_contr =
  nodene :: int
  rank :: int
  le :: int

record tnodes_cnode =
  runid :: int
  bcon :: p4est_connect_type
  owner :: "nat option"
  contr :: "tnodes_contr list"

record tnodes_peer =
  prank :: int
  pdone :: int
  sharind :: int
  npassive :: int
  lastadd :: int
  bufcount :: int
  shacumul :: int
  sharedno :: "int list"
  querypos :: "int list"
  remosort :: "nat list"

record p4est_lnodes_rank =
  srank :: int
  shared_nodes :: "int list"
  shared_mine_offset :: int
  shared_mine_count :: int
  owned_offset :: int
  sowned_count :: int

record p4est_ghost =
  proc_offsets :: "int list"
  ghosts :: "int list"

text \<open>
  The control structure \<open>tnodes_meta_t\<close>.  The members of \<open>me->tm\<close> (\<open>configuration\<close>)
  and of \<open>me->tm->lnodes\<close> (from \<open>vnodes\<close> to \<open>sharers\<close>) are fields of the same record;
  \<open>quadrants_offset\<close> holds \<open>tree->quadrants_offset\<close> of every tree of \<open>me->p4est\<close>.
  The last field is not a member of the C structure: \<open>slots_fresh\<close> is true as long as
  the assertions on unassigned element slots have held (line 379 of \<open>node_register\<close> and
  the \<open>memcmp\<close> of lines 509 and 510 of \<open>iter_volume1\<close>).
\<close>

record tnodes_meta =
  full_style :: bool
  with_faces :: bool
  mpisize :: int
  mpirank :: int
  ghost :: "p4est_ghost option"
  ghost_rank :: "int list"
  emptypeers :: int
  locsharer :: int
  chilev :: "8 word list"
  construct :: "tnodes_cnode list"
  ownsort :: "nat list"
  lenum :: int
  num_owned :: int
  num_owned_shared :: int
  num_shared :: int
  num_all_shared :: int
  goffset :: "int list"
  quadrants_offset :: "int list"
  proc_peer :: "int list"
  sortp :: "nat list"
  peers :: "tnodes_peer list"
  vnodes :: int
  num_local_elements :: int
  element_nodes :: "int list"
  face_code :: "8 word list"
  owned_count :: int
  num_local_nodes :: int
  nonlocal_nodes :: "int list"
  global_owned_count :: "int list"
  global_offset :: int
  sharers :: "p4est_lnodes_rank list"
  configuration :: "8 word list"
  slots_fresh :: bool

subsection \<open>Position tables\<close>

definition n_ccorn :: "int list" where
  "n_ccorn = [0, 1, 2, 3]"

definition n_center :: int where
  "n_center = 4"

definition n_mface :: "int list" where
  "n_mface = [5, 6, 7, 8]"

definition n_cface :: "int list" where
  "n_cface = [9, 10, 11, 12]"

definition n_split :: "int list" where
  "n_split = [14, 17, 20, 22]"

definition n_hface :: "int list list" where
  "n_hface = [[13, 15], [16, 18], [19, 21], [23, 24]]"

definition alwaysowned :: "int list" where
  "alwaysowned = [0, 0, 0, 0, 1, 0, 0, 0, 0, 1, 1, 1, 1,
                  0, 1, 0, 0, 1, 0, 0, 1, 0, 1, 0, 0]"

subsection \<open>Registering a node position\<close>

text \<open>The search loop of \<open>node_register\<close>: the index of the first contributor of a rank.\<close>

fun find_contr :: "tnodes_contr list \<Rightarrow> int \<Rightarrow> nat \<Rightarrow> nat option" where
  "find_contr [] rk zz = None"
| "find_contr (c # cs) rk zz = (if rank c = rk then Some zz else find_contr cs rk (Suc zz))"

text \<open>
  The loop \<open>for (zz = 1; zz < siz - 1; ++zz)\<close> that restores the owner pointer after the
  contributor array has grown.
\<close>

definition rescan_owner :: "tnodes_contr list \<Rightarrow> nat" where
  "rescan_owner cs =
     fold (\<lambda>zz ow. if rank (cs ! zz) < rank (cs ! ow) then zz else ow) [1 ..< length cs - 1] 0"

text \<open>Lines 383 to 422 of \<open>node_register\<close>, on the node that was created or passed in.\<close>

definition cnode_contribute :: "tnodes_cnode \<Rightarrow> int \<Rightarrow> int \<Rightarrow> int \<Rightarrow> tnodes_cnode" where
  "cnode_contribute cnode rk l p =
     (case find_contr (contr cnode) rk 0 of
        Some zz \<Rightarrow>
          (let c = contr cnode ! zz in
           if l < le c \<or> (l = le c \<and> p < nodene c)
           then cnode\<lparr>contr := (contr cnode)[zz := c\<lparr>nodene := p, le := l\<rparr>]\<rparr>
           else cnode)
      | None \<Rightarrow>
          (let owner_rank = (case owner cnode of None \<Rightarrow> - 1 | Some ow \<Rightarrow> rank (contr cnode ! ow));
               cs = contr cnode @ [\<lparr>nodene = p, rank = rk, le = l\<rparr>]
           in if owner cnode = None \<or> rk \<le> owner_rank
              then cnode\<lparr>owner := Some (length (contr cnode)), contr := cs\<rparr>
              else cnode\<lparr>owner := Some (rescan_owner cs), contr := cs\<rparr>))"

text \<open>
  \<open>node_register (me, lni, rank, le, nodene, bcon)\<close>.  The argument \<open>lni\<close> is the value
  behind the pointer (\<open>- 1\<close> when the caller passes \<open>NULL\<close>), and the value stored back
  through it is returned with the state.
\<close>

definition node_register ::
  "tnodes_meta \<Rightarrow> int \<Rightarrow> int \<Rightarrow> int \<Rightarrow> int \<Rightarrow> p4est_connect_type \<Rightarrow> tnodes_meta \<times> int" where
  "node_register me lni rk0 l p bc =
     (let rk = (if rk0 = - 1 then mpirank me else rk0);
          lni1 = (if lni = - 1 then int (length (construct me)) else lni);
          me1 = (if lni = - 1
                 then me\<lparr>construct := construct me @
                        [\<lparr>runid = lni1, bcon = bc, owner = None, contr = []\<rparr>]\<rparr>
                 else me);
          me2 = (if rk = mpirank me1
                 then me1\<lparr>slots_fresh := (slots_fresh me1 \<and>
                            element_nodes me1 ! nat (l * vnodes me1 + p) = - 1),
                          element_nodes := (element_nodes me1)[nat (l * vnodes me1 + p) := lni1]\<rparr>
                 else me1);
          cnode = construct me2 ! nat lni1
      in (me2\<lparr>construct := (construct me2)[nat lni1 := cnode_contribute cnode rk l p]\<rparr>, lni1))"

definition node_lregister ::
  "tnodes_meta \<Rightarrow> int \<Rightarrow> int \<Rightarrow> int \<Rightarrow> p4est_connect_type \<Rightarrow> tnodes_meta \<times> int" where
  "node_lregister me lni l p bc = node_register me lni (- 1) l p bc"

definition node_lfacetocorner :: "tnodes_meta \<Rightarrow> int \<Rightarrow> int \<Rightarrow> tnodes_meta" where
  "node_lfacetocorner me l p =
     (let lni = element_nodes me ! nat (l * vnodes me + p);
          cnode = construct me ! nat lni
      in me\<lparr>construct := (construct me)[nat lni := cnode\<lparr>bcon := P4EST_CONNECT_CORNER\<rparr>]\<rparr>)"

definition node_gregister ::
  "tnodes_meta \<Rightarrow> int \<Rightarrow> int \<Rightarrow> int \<Rightarrow> p4est_connect_type \<Rightarrow> tnodes_meta \<times> int" where
  "node_gregister me lni ghostid p bc =
     (case ghost me of
        None \<Rightarrow> (me, lni)
      | Some g \<Rightarrow> node_register me lni (ghost_rank me ! nat ghostid) (ghosts g ! nat ghostid) p bc)"

subsection \<open>What the topology iterator passes to the callbacks\<close>

text \<open>
  \<open>p4est_iterate\<close> and the forest are external.  A volume event carries the level and the
  child id of the leaf (\<open>vi->quad->level\<close>, \<open>p4est_quadrant_child_id (vi->quad)\<close>).  A face
  side is full or hanging (the union \<open>is\<close> of the C struct); a hanging side carries, for
  each half, the ghost flag, the quadrant number and the child id of \<open>quad[j]\<close>.
\<close>

record p4est_iter_volume_info =
  vi_treeid :: nat
  vi_quadid :: int
  vi_level :: int
  vi_childid :: int

datatype p4est_iter_face_side =
    Side_full (fs_treeid: nat) (fs_face: nat) (fu_is_ghost: bool) (fu_quadid: int)
  | Side_hanging (fs_treeid: nat) (fs_face: nat) (fh_is_ghost: "bool list")
      (fh_quadid: "int list") (fh_childid: "int list")

fun is_hanging :: "p4est_iter_face_side \<Rightarrow> bool" where
  "is_hanging (Side_full t f g q) = False"
| "is_hanging (Side_hanging t f g q c) = True"

record p4est_iter_face_info =
  orientation :: int
  fi_sides :: "p4est_iter_face_side list"

record p4est_iter_corner_side =
  cs_treeid :: nat
  cs_corner :: nat
  cs_is_ghost :: bool
  cs_quadid :: int

record p4est_iter_corner_info =
  ci_sides :: "p4est_iter_corner_side list"

datatype iter_event =
    Volume_event p4est_iter_volume_info
  | Face_event p4est_iter_face_info
  | Corner_event p4est_iter_corner_info

text \<open>
  Modelled from the spec: the table \<open>p4est_face_corners\<close> belongs to the connectivity
  header, which is not among the sources.  It lists the two corners of each face in
  child-id (z-order) numbering, the numbering the position schema of the spec uses for
  corners 0..3 and faces 0..3.
\<close>

definition p4est_face_corners :: "nat list list" where
  "p4est_face_corners = [[0, 2], [1, 3], [0, 1], [2, 3]]"

definition tree_quad_to_le :: "tnodes_meta \<Rightarrow> nat \<Rightarrow> int \<Rightarrow> int" where
  "tree_quad_to_le me which_tree quadid = quadrants_offset me ! which_tree + quadid"

subsection \<open>The callbacks\<close>

text \<open>\<open>node_lregister (me, NULL, le, nodene, bcon)\<close>: the new node number is dropped.\<close>

definition lreg_new :: "int \<Rightarrow> int \<Rightarrow> p4est_connect_type \<Rightarrow> tnodes_meta \<Rightarrow> tnodes_meta" where
  "lreg_new l p bc me = fst (node_lregister me (- 1) l p bc)"

definition iter_volume1 :: "p4est_iter_volume_info \<Rightarrow> tnodes_meta \<Rightarrow> tnodes_meta" where
  "iter_volume1 vi me =
     (let l = lenum me;
          level = vi_level vi;
          childid = vi_childid vi;
          me1 = me\<lparr>lenum := l + 1,
                   chilev := (chilev me)[nat l := push_bit 3 (word_of_int level) OR word_of_int childid],
                   slots_fresh := (slots_fresh me \<and>
                     list_all (\<lambda>x. x = - 1)
                       (take (nat (vnodes me)) (drop (nat (l * vnodes me)) (element_nodes me))))\<rparr>
      in if full_style me1 \<or> level = 0
         then (let me2 = me1\<lparr>configuration := (configuration me1)[nat l := push_bit 5 1]\<rparr>;
                   me3 = lreg_new l n_center P4EST_CONNECT_CORNER me2
               in if with_faces me3
                  then fold (\<lambda>j. lreg_new l (n_cface ! j) P4EST_CONNECT_FACE) [0 ..< 4] me3
                  else me3)
         else (let me2 = (if childid = 1 \<or> childid = 2
                          then me1\<lparr>configuration := (configuration me1)[nat l := push_bit 4 1]\<rparr>
                          else me1)
               in if with_faces me2
                  then lreg_new l n_center P4EST_CONNECT_FACE me2
                  else me2))"

text \<open>
  The locals of \<open>iter_face1\<close> that the registrations write through: the state, \<open>lni\<close> and
  the two entries of \<open>lnh\<close>.
\<close>

type_synonym face_nodes = "tnodes_meta \<times> int \<times> int list"

definition lreg_lni :: "int \<Rightarrow> int \<Rightarrow> p4est_connect_type \<Rightarrow> face_nodes \<Rightarrow> face_nodes" where
  "lreg_lni l p bc st =
     (case st of (me, lni, lnh) \<Rightarrow>
        (case node_lregister me lni l p bc of (me', lni') \<Rightarrow> (me', lni', lnh)))"

definition lreg_lnh :: "nat \<Rightarrow> int \<Rightarrow> int \<Rightarrow> p4est_connect_type \<Rightarrow> face_nodes \<Rightarrow> face_nodes" where
  "lreg_lnh k l p bc st =
     (case st of (me, lni, lnh) \<Rightarrow>
        (case node_lregister me (lnh ! k) l p bc of (me', h') \<Rightarrow> (me', lni, lnh[k := h'])))"

definition greg_lni :: "int \<Rightarrow> int \<Rightarrow> p4est_connect_type \<Rightarrow> face_nodes \<Rightarrow> face_nodes" where
  "greg_lni ghostid p bc st =
     (case st of (me, lni, lnh) \<Rightarrow>
        (case node_gregister me lni ghostid p bc of (me', lni') \<Rightarrow> (me', lni', lnh)))"

definition greg_lnh :: "nat \<Rightarrow> int \<Rightarrow> int \<Rightarrow> p4est_connect_type \<Rightarrow> face_nodes \<Rightarrow> face_nodes" where
  "greg_lnh k ghostid p bc st =
     (case st of (me, lni, lnh) \<Rightarrow>
        (case node_gregister me (lnh ! k) ghostid p bc of (me', h') \<Rightarrow> (me', lni, lnh[k := h'])))"

text \<open>The promotion of a half refinement to full, lines 606 to 618.\<close>

definition promote_half :: "int \<Rightarrow> tnodes_meta \<Rightarrow> tnodes_meta" where
  "promote_half l me =
     (if configuration me ! nat l AND NOT (push_bit 4 1) = 0
      then (if \<not> with_faces me
            then lreg_new l n_center P4EST_CONNECT_CORNER me
            else fold (\<lambda>j. lreg_new l (n_cface ! j) P4EST_CONNECT_FACE) [0 ..< 4]
                   (node_lfacetocorner me l n_center))
      else me)"

text \<open>Lines 619 and 620: clear bits 4 and 5, set the bit of the face.\<close>

definition split_config :: "int \<Rightarrow> nat \<Rightarrow> tnodes_meta \<Rightarrow> tnodes_meta" where
  "split_config l face me =
     (let me1 = me\<lparr>configuration := (configuration me)
                   [nat l := configuration me ! nat l AND NOT (push_bit 4 1 OR push_bit 5 1)]\<rparr>
      in me1\<lparr>configuration := (configuration me1)
                   [nat l := configuration me1 ! nat l OR push_bit face 1]\<rparr>)"

text \<open>The full side of a nonconforming face, lines 598 to 637.\<close>

definition face_full_side :: "nat \<Rightarrow> p4est_iter_face_side \<Rightarrow> face_nodes \<Rightarrow> face_nodes" where
  "face_full_side swapi fs st =
     (let face = fs_face fs;
          p = n_mface ! face
      in if \<not> fu_is_ghost fs
         then (case st of (me, lni, lnh) \<Rightarrow>
                 (let l = tree_quad_to_le me (fs_treeid fs) (fu_quadid fs);
                      me1 = split_config l face (promote_half l me);
                      st1 = lreg_lni l p P4EST_CONNECT_CORNER (me1, lni, lnh)
                  in if with_faces me
                     then (case st1 of (me2, lni2, lnh2) \<Rightarrow>
                             fold (\<lambda>j. lreg_lnh (j XOR swapi) l (n_hface ! face ! j) P4EST_CONNECT_FACE)
                               [0 ..< 2]
                               (lreg_new l (n_split ! face) P4EST_CONNECT_FACE me2, lni2, lnh2))
                     else st1))
         else (let st1 = greg_lni (fu_quadid fs) p P4EST_CONNECT_CORNER st
               in if with_faces (fst st)
                  then fold (\<lambda>j. greg_lnh (j XOR swapi) (fu_quadid fs) (n_hface ! face ! j)
                                   P4EST_CONNECT_FACE) [0 ..< 2] st1
                  else st1))"

text \<open>One half of the hanging side, the body of the loop of lines 644 to 667.\<close>

definition face_hanging_half :: "nat \<Rightarrow> p4est_iter_face_side \<Rightarrow> nat \<Rightarrow> face_nodes \<Rightarrow> face_nodes" where
  "face_hanging_half swapi fs j st =
     (let face = fs_face fs;
          p = n_ccorn ! (p4est_face_corners ! face ! (j XOR 1))
      in if \<not> fh_is_ghost fs ! j
         then (let l = tree_quad_to_le (fst st) (fs_treeid fs) (fh_quadid fs ! j);
                   st1 = lreg_lni l p P4EST_CONNECT_CORNER st;
                   st2 = (if with_faces (fst st)
                          then lreg_lnh (j XOR swapi) l (n_mface ! face) P4EST_CONNECT_FACE st1
                          else st1)
               in (case st2 of (me, lni, lnh) \<Rightarrow>
                     (me\<lparr>face_code := (face_code me)
                          [nat l := face_code me ! nat l OR
                             (push_bit (2 + face div 2) 1 OR word_of_int (fh_childid fs ! j))]\<rparr>,
                      lni, lnh)))
         else (let st1 = greg_lni (fh_quadid fs ! j) p P4EST_CONNECT_CORNER st
               in if with_faces (fst st)
                  then greg_lnh (j XOR swapi) (fh_quadid fs ! j) (n_mface ! face)
                         P4EST_CONNECT_FACE st1
                  else st1))"

text \<open>The body of the loop over the two sides of a nonconforming face.\<close>

definition face_side_step ::
  "p4est_iter_face_info \<Rightarrow> p4est_iter_face_side list \<Rightarrow> nat \<Rightarrow> face_nodes \<Rightarrow> face_nodes" where
  "face_side_step fi fss i st =
     (let swapi = (if i = 0 \<or> orientation fi = 0 then 0 else 1)
      in if \<not> is_hanging (fss ! i)
         then face_full_side swapi (fss ! i) st
         else fold (face_hanging_half swapi (fss ! i)) [0 ..< 2] st)"

text \<open>One side of a same-size face connection, the body of the loop of lines 579 to 589.\<close>

definition face_conforming_side :: "p4est_iter_face_side \<Rightarrow> tnodes_meta \<times> int \<Rightarrow> tnodes_meta \<times> int" where
  "face_conforming_side fs st =
     (case st of (me, lni) \<Rightarrow>
        (if \<not> fu_is_ghost fs
         then node_lregister me lni (tree_quad_to_le me (fs_treeid fs) (fu_quadid fs))
                (n_mface ! fs_face fs) P4EST_CONNECT_FACE
         else node_gregister me lni (fu_quadid fs) (n_mface ! fs_face fs) P4EST_CONNECT_FACE))"

text \<open>
  \<open>iter_face1\<close>.  The callback asserts one or two sides; with more it reads the first two,
  and the case of none is left out of the model.
\<close>

definition iter_face1 :: "p4est_iter_face_info \<Rightarrow> tnodes_meta \<Rightarrow> tnodes_meta" where
  "iter_face1 fi me =
     (case fi_sides fi of
        [] \<Rightarrow> me
      | [fs] \<Rightarrow>
          (if with_faces me
           then lreg_new (tree_quad_to_le me (fs_treeid fs) (fu_quadid fs))
                  (n_mface ! fs_face fs) P4EST_CONNECT_FACE me
           else me)
      | fs0 # fs1 # rest \<Rightarrow>
          (if \<not> is_hanging fs0 \<and> \<not> is_hanging fs1
           then (if with_faces me
                 then fst (fold face_conforming_side [fs0, fs1] (me, - 1))
                 else me)
           else fst (fold (face_side_step fi [fs0, fs1]) [0 ..< 2] (me, - 1, [- 1, - 1]))))"

definition corner_side_step ::
  "p4est_iter_corner_side \<Rightarrow> tnodes_meta \<times> int \<Rightarrow> tnodes_meta \<times> int" where
  "corner_side_step cs st =
     (case st of (me, lni) \<Rightarrow>
        (if \<not> cs_is_ghost cs
         then node_lregister me lni (tree_quad_to_le me (cs_treeid cs) (cs_quadid cs))
                (n_ccorn ! cs_corner cs) P4EST_CONNECT_CORNER
         else node_gregister me lni (cs_quadid cs) (n_ccorn ! cs_corner cs) P4EST_CONNECT_CORNER))"

definition iter_corner1 :: "p4est_iter_corner_info \<Rightarrow> tnodes_meta \<Rightarrow> tnodes_meta" where
  "iter_corner1 ci me = fst (fold corner_side_step (ci_sides ci) (me, - 1))"

text \<open>
  \<open>p4est_iterate\<close> is external: the list of events is what it dispatches, in its order, and
  the model runs the three callbacks over it.
\<close>

fun iter_dispatch :: "iter_event \<Rightarrow> tnodes_meta \<Rightarrow> tnodes_meta" where
  "iter_dispatch (Volume_event vi) me = iter_volume1 vi me"
| "iter_dispatch (Face_event fi) me = iter_face1 fi me"
| "iter_dispatch (Corner_event ci) me = iter_corner1 ci me"

definition p4est_iterate :: "iter_event list \<Rightarrow> tnodes_meta \<Rightarrow> tnodes_meta" where
  "p4est_iterate evs me = fold iter_dispatch evs me"

subsection \<open>Peers and ownership\<close>

text \<open>
  The model follows the build with \<open>P4EST_ENABLE_MPI\<close>.  \<open>peer_access\<close> returns the state
  and the index of the peer in \<open>me->peers\<close>; \<open>shacumul\<close> is not initialised by the C code
  before \<open>sort_peers\<close> and starts at 0 here.
\<close>

definition peer_access :: "tnodes_meta \<Rightarrow> int \<Rightarrow> tnodes_meta \<times> nat" where
  "peer_access me q =
     (let pi = proc_peer me ! nat q
      in if pi = 0
         then (me\<lparr>peers := peers me @
                   [\<lparr>prank = q, pdone = 0, sharind = - 1, npassive = 0, lastadd = - 1,
                     bufcount = 0, shacumul = 0, sharedno = [], querypos = [], remosort = []\<rparr>],
                  proc_peer := (proc_peer me)[nat q := int (length (peers me)) + 1]\<rparr>,
               length (peers me))
         else (me, nat (pi - 1)))"

definition peer_sharer :: "tnodes_meta \<Rightarrow> int \<Rightarrow> nat" where
  "peer_sharer me q = nat (sharind (peers me ! nat (proc_peer me ! nat q - 1)))"

definition peer_add_reply :: "tnodes_peer \<Rightarrow> int \<Rightarrow> tnodes_peer" where
  "peer_add_reply peer lni = peer\<lparr>bufcount := bufcount peer + 1, lastadd := lni\<rparr>"

definition peer_add_query :: "tnodes_peer \<Rightarrow> int \<Rightarrow> int \<Rightarrow> tnodes_peer" where
  "peer_add_query peer lni epos =
     peer\<lparr>bufcount := bufcount peer + 1, querypos := querypos peer @ [epos],
          sharedno := sharedno peer @ [lni], lastadd := lni\<rparr>"

text \<open>The contributor behind the owner pointer.\<close>

definition owner_contr :: "tnodes_cnode \<Rightarrow> tnodes_contr" where
  "owner_contr cnode = contr cnode ! the (owner cnode)"

definition set_runid :: "nat \<Rightarrow> int \<Rightarrow> tnodes_meta \<Rightarrow> tnodes_meta" where
  "set_runid zz r me = me\<lparr>construct := (construct me)[zz := (construct me ! zz)\<lparr>runid := r\<rparr>]\<rparr>"

definition post_reply :: "int \<Rightarrow> tnodes_contr \<Rightarrow> tnodes_meta \<Rightarrow> tnodes_meta" where
  "post_reply rid c me =
     (if rank c \<noteq> mpirank me
      then (case peer_access me (rank c) of (me', pi) \<Rightarrow>
              me'\<lparr>peers := (peers me')[pi := peer_add_reply (peers me' ! pi) rid]\<rparr>)
      else me)"

definition count_passive :: "tnodes_contr \<Rightarrow> tnodes_contr \<Rightarrow> tnodes_meta \<Rightarrow> tnodes_meta" where
  "count_passive ow c me =
     (if rank c \<noteq> mpirank me \<and> rank c \<noteq> rank ow
      then (case peer_access me (rank c) of (me', pi) \<Rightarrow>
              me'\<lparr>peers := (peers me')[pi := (peers me' ! pi)\<lparr>npassive := npassive (peers me' ! pi) + 1\<rparr>]\<rparr>)
      else me)"

text \<open>The body of the loop of \<open>owned_query_reply\<close> for the node \<open>zz\<close>.\<close>

definition owned_query_reply_node :: "nat \<Rightarrow> tnodes_meta \<Rightarrow> tnodes_meta" where
  "owned_query_reply_node zz me =
     (let cnode = construct me ! zz;
          ow = owner_contr cnode
      in if rank ow = mpirank me
         then (let me1 = me\<lparr>ownsort := ownsort me @ [zz], num_owned := num_owned me + 1\<rparr>;
                   me2 = fold (post_reply (runid cnode)) (contr cnode) me1;
                   me3 = (if length (contr cnode) > 1
                          then me2\<lparr>num_owned_shared := num_owned_shared me2 + 1\<rparr>
                          else me2)
               in set_runid zz (- 1) me3)
         else if \<not> list_ex (\<lambda>c. rank c = mpirank me) (contr cnode)
         then set_runid zz (- 1) me
         else (let me1 = fold (count_passive ow) (contr cnode) me
               in (case peer_access me1 (rank ow) of (me2, pi) \<Rightarrow>
                     (let peer = peer_add_query (peers me2 ! pi) (runid cnode)
                                   (le ow * vnodes me2 + nodene ow);
                          me3 = me2\<lparr>peers := (peers me2)[pi := peer\<lparr>remosort := remosort peer @ [zz]\<rparr>],
                                    num_shared := num_shared me2 + 1\<rparr>
                      in set_runid zz (- 1) me3))))"

definition owned_query_reply :: "tnodes_meta \<Rightarrow> tnodes_meta" where
  "owned_query_reply me =
     (let me1 = fold owned_query_reply_node [0 ..< length (construct me)] me
      in me1\<lparr>num_all_shared := num_owned_shared me1 + num_shared me1\<rparr>)"

text \<open>
  \<open>post_query_reply\<close>.  The requests of \<open>me->pereq\<close> are not modelled: the state \<open>done\<close>
  of a peer says which request is outstanding.  The receive buffer is filled when the
  message completes.
\<close>

definition post_query_reply_peer :: "nat \<Rightarrow> tnodes_meta \<Rightarrow> tnodes_meta" where
  "post_query_reply_peer iz me =
     (let peer = peers me ! iz
      in if bufcount peer = 0
         then me\<lparr>emptypeers := emptypeers me + 1\<rparr>
         else if prank peer > mpirank me
         then me\<lparr>peers := (peers me)
                   [iz := peer\<lparr>querypos := replicate (nat (bufcount peer)) 0, pdone := 1\<rparr>]\<rparr>
         else me\<lparr>peers := (peers me)[iz := peer\<lparr>pdone := 3\<rparr>]\<rparr>)"

definition post_query_reply :: "tnodes_meta \<Rightarrow> tnodes_meta" where
  "post_query_reply me =
     (if ghost me = None \<or> peers me = []
      then me
      else fold post_query_reply_peer [0 ..< length (peers me)] me)"

subsection \<open>Sorting and the global offsets\<close>

text \<open>
  \<open>sc_array_sort\<close> is \<open>qsort\<close> with a comparison function.  The model sorts by insertion;
  C leaves the order of elements that compare equal open.
\<close>

fun sort_insert :: "('a \<Rightarrow> 'a \<Rightarrow> int) \<Rightarrow> 'a \<Rightarrow> 'a list \<Rightarrow> 'a list" where
  "sort_insert cmp x [] = [x]"
| "sort_insert cmp x (y # ys) = (if cmp x y \<le> 0 then x # y # ys else y # sort_insert cmp x ys)"

definition sc_array_sort :: "('a \<Rightarrow> 'a \<Rightarrow> int) \<Rightarrow> 'a list \<Rightarrow> 'a list" where
  "sc_array_sort cmp xs = foldr (sort_insert cmp) xs []"

definition cnode_compare :: "tnodes_cnode \<Rightarrow> tnodes_cnode \<Rightarrow> int" where
  "cnode_compare cc1 cc2 =
     (let o1 = owner_contr cc1;
          o2 = owner_contr cc2
      in if le o1 = le o2
         then nodene o1 - nodene o2
         else (let ldiff = le o1 - le o2
               in if ldiff = 0 then 0 else if ldiff < 0 then - 1 else 1))"

definition peer_compare :: "tnodes_peer \<Rightarrow> tnodes_peer \<Rightarrow> int" where
  "peer_compare p1 p2 = prank p1 - prank p2"

definition rnode_compare :: "tnodes_cnode \<Rightarrow> tnodes_cnode \<Rightarrow> int" where
  "rnode_compare cc1 cc2 =
     (let ldiff = runid cc1 - runid cc2
      in if ldiff = 0 then 0 else if ldiff < 0 then - 1 else 1)"

text \<open>The scan \<open>gc = me->goffset[q + 1] = gc + ln->global_owned_count[q]\<close>.\<close>

fun goffset_scan :: "int \<Rightarrow> int list \<Rightarrow> int list" where
  "goffset_scan gc [] = []"
| "goffset_scan gc (c # cs) = (gc + c) # goffset_scan (gc + c) cs"

definition goffset_of :: "int list \<Rightarrow> int list" where
  "goffset_of counts = 0 # goffset_scan 0 counts"

text \<open>
  \<open>sort_allgather\<close>.  \<open>sc_MPI_Allgather\<close> is external: \<open>gathered\<close> holds what the ranks
  contribute, and the entry of the local rank is the local \<open>owned_count\<close>.  The shared
  part of \<open>nonlocal_nodes\<close> starts at \<open>- 1\<close>, as the \<open>memset\<close> of the debug build leaves it.
\<close>

definition sort_allgather :: "int list \<Rightarrow> tnodes_meta \<Rightarrow> tnodes_meta" where
  "sort_allgather gathered me =
     (let me1 = me\<lparr>ownsort := sc_array_sort
                     (\<lambda>a b. cnode_compare (construct me ! a) (construct me ! b)) (ownsort me)\<rparr>;
          me2 = fold (\<lambda>zz m. set_runid (ownsort m ! zz) (int zz) m) [0 ..< length (ownsort me1)] me1;
          me3 = me2\<lparr>owned_count := num_owned me2,
                    num_local_nodes := num_owned me2 + num_shared me2,
                    nonlocal_nodes := replicate (nat (num_shared me2)) (- 1)\<rparr>;
          me4 = me3\<lparr>global_owned_count := gathered[nat (mpirank me3) := owned_count me3]\<rparr>;
          me5 = me4\<lparr>goffset := goffset_of
                     (map (\<lambda>q. global_owned_count me4 ! q) [0 ..< nat (mpisize me4)])\<rparr>
      in me5\<lparr>global_offset := goffset me5 ! nat (mpirank me5)\<rparr>)"

definition push_sharer :: "int \<Rightarrow> tnodes_meta \<Rightarrow> tnodes_meta \<times> int" where
  "push_sharer rk me =
     (me\<lparr>sharers := sharers me @
           [\<lparr>srank = rk, shared_nodes = [], shared_mine_offset = - 1, shared_mine_count = - 1,
             owned_offset = - 1, sowned_count = - 1\<rparr>]\<rparr>,
      int (length (sharers me)))"

definition push_peer_sharer :: "nat \<Rightarrow> tnodes_meta \<Rightarrow> tnodes_meta" where
  "push_peer_sharer pi me =
     (case push_sharer (prank (peers me ! pi)) me of (me', si) \<Rightarrow>
        me'\<lparr>peers := (peers me')[pi := (peers me' ! pi)\<lparr>sharind := si\<rparr>]\<rparr>)"

text \<open>The loop of lines 950 to 956 over the sorted peers, with the running \<open>nonlofs\<close>.\<close>

definition accumulate_peer :: "nat \<Rightarrow> tnodes_meta \<times> int \<Rightarrow> tnodes_meta \<times> int" where
  "accumulate_peer pi st =
     (case st of (me, nonlofs) \<Rightarrow>
        (me\<lparr>peers := (peers me)[pi := (peers me ! pi)\<lparr>shacumul := nonlofs\<rparr>]\<rparr>,
         if prank (peers me ! pi) < mpirank me then nonlofs + bufcount (peers me ! pi) else nonlofs))"

definition sort_peers :: "tnodes_meta \<Rightarrow> tnodes_meta" where
  "sort_peers me =
     (if ghost me = None \<or> peers me = []
      then me
      else (let me1 = me\<lparr>sortp := sc_array_sort
                           (\<lambda>a b. peer_compare (peers me ! a) (peers me ! b))
                           [0 ..< length (peers me)]\<rparr>;
                me2 = fst (fold accumulate_peer (sortp me1) (me1, 0));
                lower = takeWhile (\<lambda>pi. \<not> prank (peers me2 ! pi) > mpirank me2) (sortp me2);
                higher = dropWhile (\<lambda>pi. \<not> prank (peers me2 ! pi) > mpirank me2) (sortp me2);
                me3 = fold push_peer_sharer lower me2
            in (case push_sharer (mpirank me3) me3 of (me4, si) \<Rightarrow>
                  fold push_peer_sharer higher (me4\<lparr>locsharer := si\<rparr>))))"

subsection \<open>The exchange of queries and replies\<close>

text \<open>
  \<open>sc_MPI_Waitsome\<close> is external.  Every call returns a batch of completed requests; a
  completion is the index of the peer in \<open>me->peers\<close> together with the message that
  arrived (read only when the completed request was a receive).  The code passes
  \<open>sc_MPI_STATUSES_IGNORE\<close> and never looks at the number of items received: a message
  of at most \<open>bufcount\<close> items overwrites the front of \<open>querypos\<close> and the loops read
  all \<open>bufcount\<close> entries, the rest as it was before.  A longer message is a truncation
  error of the transport, on which \<open>SC_CHECK_MPI\<close> aborts.  A completion for a peer
  without an outstanding request cannot be returned.  These two cases end the model with
  \<open>None\<close>, like an empty batch (\<open>SC_CHECK_ABORT (nwaited > 0, ...)\<close>) and like running
  out of batches while peers are still waiting.
\<close>

type_synonym completion = "nat \<times> int list"

text \<open>The receive buffer after a message has arrived in it.\<close>

definition receive_into :: "int list \<Rightarrow> int list \<Rightarrow> int list" where
  "receive_into old buf = buf @ drop (length buf) old"

text \<open>Lines 1087 to 1104: every queried position is replaced by the owner's node number.\<close>

definition answer_query :: "tnodes_meta \<Rightarrow> int list \<Rightarrow> int list" where
  "answer_query me buf =
     map (\<lambda>epos. runid (construct me ! nat (element_nodes me ! nat epos))) buf"

text \<open>Lines 1132 to 1139: the reply gives every queried node its number at the owner.\<close>

definition store_reply :: "nat \<Rightarrow> tnodes_meta \<Rightarrow> tnodes_meta" where
  "store_reply j me =
     fold (\<lambda>lcl m. set_runid (nat (sharedno (peers m ! j) ! lcl)) (querypos (peers m ! j) ! lcl) m)
       [0 ..< nat (bufcount (peers me ! j))] me"

text \<open>Lines 1143 to 1157: global numbers of the shared nodes and their local numbers.\<close>

definition number_shared :: "nat \<Rightarrow> tnodes_meta \<Rightarrow> tnodes_meta" where
  "number_shared j me =
     (let peer = peers me ! j;
          gof = goffset me ! nat (prank peer)
      in fold (\<lambda>lcl m.
                 (let zz = remosort peer ! lcl;
                      nonloc = shacumul peer + int lcl;
                      gni = gof + runid (construct m ! zz)
                  in set_runid zz (num_owned m + nonloc)
                       (m\<lparr>nonlocal_nodes := (nonlocal_nodes m)[nat nonloc := gni]\<rparr>)))
           [0 ..< nat (bufcount peer)] me)"

definition process_reply :: "nat \<Rightarrow> int list \<Rightarrow> tnodes_meta \<Rightarrow> tnodes_meta" where
  "process_reply j buf me =
     (let me1 = me\<lparr>peers := (peers me)[j := (peers me ! j)\<lparr>querypos := buf\<rparr>]\<rparr>;
          me2 = store_reply j me1;
          me3 = me2\<lparr>peers := (peers me2)[j := (peers me2 ! j)\<lparr>remosort := sc_array_sort
                     (\<lambda>a b. rnode_compare (construct me2 ! a) (construct me2 ! b))
                     (remosort (peers me2 ! j))\<rparr>]\<rparr>;
          me4 = number_shared j me3
      in me4\<lparr>peers := (peers me4)[j := (peers me4 ! j)\<lparr>pdone := 0\<rparr>]\<rparr>)"

definition wait_complete :: "completion \<Rightarrow> tnodes_meta \<times> int \<Rightarrow> (tnodes_meta \<times> int) option" where
  "wait_complete ev st =
     (case ev of (j, buf) \<Rightarrow> (case st of (me, nwtotal) \<Rightarrow>
        (if length (peers me) \<le> j then None
         else (let peer = peers me ! j
               in if prank peer > mpirank me
                  then (if pdone peer = 1
                        then (if length buf > nat (bufcount peer) then None
                              else (let rcv = receive_into (querypos peer) buf;
                                        lbc = nat (bufcount peer)
                                    in Some (me\<lparr>peers := (peers me)
                                         [j := peer\<lparr>querypos := answer_query me (take lbc rcv) @
                                                           drop lbc rcv,
                                                    pdone := 2\<rparr>]\<rparr>,
                                       nwtotal)))
                        else if pdone peer = 2
                        then Some (me\<lparr>peers := (peers me)[j := peer\<lparr>pdone := 0\<rparr>]\<rparr>, nwtotal - 1)
                        else None)
                  else (if pdone peer = 3
                        then Some (me\<lparr>peers := (peers me)[j := peer\<lparr>pdone := 4\<rparr>]\<rparr>, nwtotal)
                        else if pdone peer = 4
                        then (if length buf > nat (bufcount peer) then None
                              else Some (process_reply j (receive_into (querypos peer) buf) me,
                                         nwtotal - 1))
                        else None)))))"

fun wait_batch :: "completion list \<Rightarrow> tnodes_meta \<times> int \<Rightarrow> (tnodes_meta \<times> int) option" where
  "wait_batch [] st = Some st"
| "wait_batch (ev # evs) st =
     (case wait_complete ev st of None \<Rightarrow> None | Some st' \<Rightarrow> wait_batch evs st')"

fun wait_loop :: "completion list list \<Rightarrow> tnodes_meta \<times> int \<Rightarrow> tnodes_meta option" where
  "wait_loop [] (me, nwtotal) = (if nwtotal > 0 then None else Some me)"
| "wait_loop (b # bs) (me, nwtotal) =
     (if nwtotal > 0
      then (if b = [] then None
            else (case wait_batch b (me, nwtotal) of
                    None \<Rightarrow> None
                  | Some st \<Rightarrow> wait_loop bs st))
      else Some me)"

definition wait_query_reply :: "completion list list \<Rightarrow> tnodes_meta \<Rightarrow> tnodes_meta option" where
  "wait_query_reply batches me =
     (if ghost me = None \<or> peers me = []
      then Some me
      else wait_loop batches (me, int (length (peers me)) - emptypeers me))"

subsection \<open>Finalization\<close>

definition p4est_tnodes_config_count :: "int list list" where
  "p4est_tnodes_config_count =
     [[4, 5], [6, 10], [6, 10], [7, 12], [6, 10], [7, 12], [7, 12], [8, 14], [6, 10],
      [7, 12], [7, 12], [8, 14], [7, 12], [8, 14], [8, 14], [9, 16], [4, 5], [5, 8]]"

definition p4est_tnodes_config_corners :: "int list list" where
  "p4est_tnodes_config_corners =
     [[0, 1, 2, 3, - 1, - 1, - 1, - 1, - 1],
      [0, 1, 2, 3, 4, 5, - 1, - 1, - 1],
      [0, 1, 2, 3, 4, 6, - 1, - 1, - 1],
      [0, 1, 2, 3, 4, 5, 6, - 1, - 1],
      [0, 1, 2, 3, 4, 7, - 1, - 1, - 1],
      [0, 1, 2, 3, 4, 5, 7, - 1, - 1],
      [0, 1, 2, 3, 4, 6, 7, - 1, - 1],
      [0, 1, 2, 3, 4, 5, 6, 7, - 1],
      [0, 1, 2, 3, 4, 8, - 1, - 1, - 1],
      [0, 1, 2, 3, 4, 5, 8, - 1, - 1],
      [0, 1, 2, 3, 4, 6, 8, - 1, - 1],
      [0, 1, 2, 3, 4, 5, 6, 8, - 1],
      [0, 1, 2, 3, 4, 7, 8, - 1, - 1],
      [0, 1, 2, 3, 4, 5, 7, 8, - 1],
      [0, 1, 2, 3, 4, 6, 7, 8, - 1],
      [0, 1, 2, 3, 4, 5, 6, 7, 8],
      [0, 1, 2, 3, - 1, - 1, - 1, - 1, - 1],
      [0, 1, 2, 3, 4, - 1, - 1, - 1, - 1]]"

definition p4est_tnodes_config_faces :: "int list list" where
  "p4est_tnodes_config_faces =
     [[4, 5, 6, 7, 8, - 1, - 1, - 1, - 1, - 1, - 1, - 1, - 1, - 1, - 1, - 1],
      [6, 7, 8, 9, 10, 11, 12, 13, 14, 15, - 1, - 1, - 1, - 1, - 1, - 1],
      [5, 7, 8, 9, 10, 11, 12, 16, 17, 18, - 1, - 1, - 1, - 1, - 1, - 1],
      [7, 8, 9, 10, 11, 12, 13, 14, 15, 16, 17, 18, - 1, - 1, - 1, - 1],
      [5, 6, 8, 9, 10, 11, 12, 19, 20, 21, - 1, - 1, - 1, - 1, - 1, - 1],
      [6, 8, 9, 10, 11, 12, 13, 14, 15, 19, 20, 21, - 1, - 1, - 1, - 1],
      [5, 8, 9, 10, 11, 12, 16, 17, 18, 19, 20, 21, - 1, - 1, - 1, - 1],
      [8, 9, 10, 11, 12, 13, 14, 15, 16, 17, 18, 19, 20, 21, - 1, - 1],
      [5, 6, 7, 9, 10, 11, 12, 22, 23, 24, - 1, - 1, - 1, - 1, - 1, - 1],
      [6, 7, 9, 10, 11, 12, 13, 14, 15, 22, 23, 24, - 1, - 1, - 1, - 1],
      [5, 7, 9, 10, 11, 12, 16, 17, 18, 22, 23, 24, - 1, - 1, - 1, - 1],
      [7, 9, 10, 11, 12, 13, 14, 15, 16, 17, 18, 22, 23, 24, - 1, - 1],
      [5, 6, 9, 10, 11, 12, 19, 20, 21, 22, 23, 24, - 1, - 1, - 1, - 1],
      [6, 9, 10, 11, 12, 13, 14, 15, 19, 20, 21, 22, 23, 24, - 1, - 1],
      [5, 9, 10, 11, 12, 16, 17, 18, 19, 20, 21, 22, 23, 24, - 1, - 1],
      [9, 10, 11, 12, 13, 14, 15, 16, 17, 18, 19, 20, 21, 22, 23, 24],
      [4, 5, 6, 7, 8, - 1, - 1, - 1, - 1, - 1, - 1, - 1, - 1, - 1, - 1, - 1],
      [5, 6, 7, 8, 9, 10, 11, 12, - 1, - 1, - 1, - 1, - 1, - 1, - 1, - 1]]"

text \<open>
  \<open>set_element_node\<close>: the node number is read from \<open>element_nodes[le * vnodes + nodene]\<close>
  and the final number is written to \<open>element_nodes[le]\<close>, as line 1209 does.
\<close>

definition set_element_node :: "int \<Rightarrow> int \<Rightarrow> tnodes_meta \<Rightarrow> tnodes_meta" where
  "set_element_node l p me =
     (let lni = element_nodes me ! nat (l * vnodes me + p);
          cnode = construct me ! nat lni;
          r = runid cnode
      in me\<lparr>element_nodes := (element_nodes me)[nat l := r]\<rparr>)"

text \<open>Lines 1229 to 1235: the row of the tables for a configuration value.\<close>

definition config_index :: "8 word \<Rightarrow> nat" where
  "config_index config = (if config \<le> 16 then unat config else 17)"

text \<open>The body of the loop of \<open>assign_element_nodes\<close> for one element.\<close>

definition assign_element :: "int \<Rightarrow> tnodes_meta \<Rightarrow> tnodes_meta" where
  "assign_element l me =
     (let cind = config_index (configuration me ! nat l);
          ncorner = p4est_tnodes_config_count ! cind ! 0;
          me1 = fold (\<lambda>ci. set_element_node l (p4est_tnodes_config_corners ! cind ! ci))
                  [0 ..< nat ncorner] me
      in if with_faces me
         then (let nface = p4est_tnodes_config_count ! cind ! 1
               in fold (\<lambda>fi. set_element_node l (p4est_tnodes_config_faces ! cind ! fi))
                    [0 ..< nat nface] me1)
         else me1)"

definition assign_element_nodes :: "tnodes_meta \<Rightarrow> tnodes_meta" where
  "assign_element_nodes me =
     fold (\<lambda>l. assign_element (int l)) [0 ..< nat (num_local_elements me)] me"

definition push_shared :: "nat \<Rightarrow> int \<Rightarrow> tnodes_meta \<Rightarrow> tnodes_meta" where
  "push_shared si v me =
     me\<lparr>sharers := (sharers me)
          [si := (sharers me ! si)\<lparr>shared_nodes := shared_nodes (sharers me ! si) @ [v]\<rparr>]\<rparr>"

text \<open>The sharer chosen for a contributor: \<open>locshare\<close> or \<open>peer_sharer (me, contr->rank)\<close>.\<close>

definition contr_sharer :: "tnodes_meta \<Rightarrow> tnodes_contr \<Rightarrow> nat" where
  "contr_sharer me c = (if rank c = mpirank me then nat (locsharer me) else peer_sharer me (rank c))"

text \<open>Lines 1314 to 1338, for the owned node at place \<open>lcl\<close> of \<open>ownsort\<close>.\<close>

definition share_owned :: "nat \<Rightarrow> tnodes_meta \<Rightarrow> tnodes_meta" where
  "share_owned lcl me =
     (let cnode = construct me ! (ownsort me ! lcl)
      in if length (contr cnode) = 1
         then me
         else fold (\<lambda>c m. push_shared (contr_sharer m c) (int lcl) m) (contr cnode) me)"

text \<open>Lines 1348 to 1363; the pointer \<open>sharer\<close> keeps the record it was last set to.\<close>

definition sharer_counts :: "nat \<Rightarrow> tnodes_meta \<times> nat \<Rightarrow> tnodes_meta \<times> nat" where
  "sharer_counts pi st =
     (case st of (me, sh) \<Rightarrow>
        (let tp = peers me ! pi;
             si = nat (sharind tp);
             sharer = sharers me ! si
         in (me\<lparr>sharers := (sharers me)
                  [si := sharer\<lparr>shared_mine_offset := 0,
                                shared_mine_count := int (length (shared_nodes sharer)),
                                owned_offset := num_owned me + shacumul tp,
                                sowned_count := (if prank tp < mpirank me then bufcount tp else 0)\<rparr>]\<rparr>,
             si)))"

text \<open>
  Lines 1372 to 1393 for one node of \<open>remosort\<close>: the loop over the contributors only
  sets the pointer \<open>sharer\<close>, and the node number is pushed once, after that loop.
\<close>

definition share_remote :: "nat \<Rightarrow> tnodes_meta \<times> int \<times> nat \<Rightarrow> tnodes_meta \<times> int \<times> nat" where
  "share_remote zz st =
     (case st of (me, lni, sh) \<Rightarrow>
        (let sh' = fold (\<lambda>c s. contr_sharer me c) (contr (construct me ! zz)) sh
         in (push_shared sh' lni me, lni + 1, sh')))"

definition share_remote_peer :: "nat \<Rightarrow> tnodes_meta \<times> int \<times> nat \<Rightarrow> tnodes_meta \<times> int \<times> nat" where
  "share_remote_peer pi st =
     (case st of (me, lni, sh) \<Rightarrow>
        (let tp = peers me ! pi
         in if prank tp < mpirank me
            then fold (\<lambda>lcl. share_remote (remosort tp ! lcl)) [0 ..< nat (bufcount tp)] st
            else st))"

definition populate_sharers :: "tnodes_meta \<Rightarrow> tnodes_meta" where
  "populate_sharers me =
     (if ghost me = None \<or> peers me = []
      then me
      else (let me1 = fold share_owned [0 ..< length (ownsort me)] me;
                ls = nat (locsharer me1);
                me2 = me1\<lparr>sharers := (sharers me1)
                        [ls := (sharers me1 ! ls)\<lparr>shared_mine_offset := 0, owned_offset := 0,
                                 shared_mine_count := num_owned_shared me1,
                                 sowned_count := num_owned me1\<rparr>]\<rparr>
            in (case fold sharer_counts (sortp me2) (me2, ls) of (me3, sh) \<Rightarrow>
                  fst (fold share_remote_peer (sortp me3) (me3, num_owned me3, sh)))))"

subsection \<open>The constructor\<close>

text \<open>
  The forest as \<open>p4est_tnodes_new\<close> reads it, together with the events \<open>p4est_iterate\<close>
  dispatches on it, and what the message passing layer delivers.
\<close>

record p4est_forest =
  f_mpisize :: int
  f_mpirank :: int
  local_num_quadrants :: int
  f_quadrants_offset :: "int list"
  f_events :: "iter_event list"

record mpi_env =
  allgathered :: "int list"
  waitsome :: "completion list list"

text \<open>Lines 1455 to 1461: the owner rank of every ghost from \<open>proc_offsets\<close>.\<close>

definition ghost_rank_of :: "int \<Rightarrow> p4est_ghost \<Rightarrow> int list" where
  "ghost_rank_of s g =
     fold (\<lambda>q gr. gr @ replicate (nat (proc_offsets g ! (q + 1)) - length gr) (int q))
       [0 ..< nat s] []"

definition tnodes_meta_init ::
  "p4est_forest \<Rightarrow> p4est_ghost option \<Rightarrow> bool \<Rightarrow> bool \<Rightarrow> tnodes_meta" where
  "tnodes_meta_init p4est gh fstyle wfaces =
     (let s = f_mpisize p4est;
          vn = 9 + (if wfaces then 16 else 0);
          lel = local_num_quadrants p4est
      in \<lparr>full_style = fstyle, with_faces = wfaces, mpisize = s, mpirank = f_mpirank p4est,
          ghost = gh,
          ghost_rank = (case gh of None \<Rightarrow> [] | Some g \<Rightarrow> ghost_rank_of s g),
          emptypeers = 0, locsharer = - 1,
          chilev = replicate (nat lel) 0,
          construct = [], ownsort = [], lenum = 0,
          num_owned = 0, num_owned_shared = 0, num_shared = 0, num_all_shared = 0,
          goffset = [],
          quadrants_offset = f_quadrants_offset p4est,
          proc_peer = (case gh of None \<Rightarrow> [] | Some g \<Rightarrow> replicate (nat s) 0),
          sortp = [], peers = [],
          vnodes = vn, num_local_elements = lel,
          element_nodes = replicate (nat (lel * vn)) (- 1),
          face_code = replicate (nat lel) 0,
          owned_count = 0, num_local_nodes = 0, nonlocal_nodes = [],
          global_owned_count = [], global_offset = 0, sharers = [],
          configuration = replicate (nat lel) 0,
          slots_fresh = True\<rparr>)"

text \<open>
  \<open>p4est_tnodes_new\<close>.  The result is the final control structure, whose \<open>lnodes\<close> and
  \<open>configuration\<close> members are what the C function returns.
\<close>

definition p4est_tnodes_new ::
  "p4est_forest \<Rightarrow> p4est_ghost option \<Rightarrow> mpi_env \<Rightarrow> bool \<Rightarrow> bool \<Rightarrow> tnodes_meta option" where
  "p4est_tnodes_new p4est gh env fstyle wfaces =
     (let me0 = tnodes_meta_init p4est gh fstyle wfaces;
          me1 = p4est_iterate (f_events p4est) me0;
          me2 = owned_query_reply me1;
          me3 = post_query_reply me2;
          me4 = sort_allgather (allgathered env) me3;
          me5 = sort_peers me4
      in (case wait_query_reply (waitsome env) me5 of
            None \<Rightarrow> None
          | Some me6 \<Rightarrow> Some (populate_sharers (assign_element_nodes me6))))"

subsection \<open>Sequences of registrations\<close>

text \<open>
  A call of \<open>node_register\<close> is recorded with its arguments: the node number behind
  \<open>lni\<close>, the rank (\<open>- 1\<close> for the local process), the element, the position and the
  codimension.  \<open>contributions\<close> is the log of a sequence of calls: for each call the
  node it went to, the rank after \<open>- 1\<close> has been replaced, the element and the position.
  \<open>calls_ok\<close> is the assertion of line 339 on \<open>lni\<close>.
\<close>
type_synonym reg_call = "int \<times> int \<times> int \<times> int \<times> p4est_connect_type"

fun register_all :: "reg_call list \<Rightarrow> tnodes_meta \<Rightarrow> tnodes_meta" where
  "register_all [] me = me"
| "register_all ((lni, rk, l, p, bc) # cs) me =
     register_all cs (fst (node_register me lni rk l p bc))"

fun contributions :: "reg_call list \<Rightarrow> tnodes_meta \<Rightarrow> (nat \<times> int \<times> int \<times> int) list" where
  "contributions [] me = []"
| "contributions ((lni, rk, l, p, bc) # cs) me =
     (nat (snd (node_register me lni rk l p bc)), (if rk = - 1 then mpirank me else rk), l, p) #
     contributions cs (fst (node_register me lni rk l p bc))"

fun calls_ok :: "reg_call list \<Rightarrow> tnodes_meta \<Rightarrow> bool" where
  "calls_ok [] me = True"
| "calls_ok ((lni, rk, l, p, bc) # cs) me =
     (- 1 \<le> lni \<and> lni < int (length (construct me)) \<and>
      calls_ok cs (fst (node_register me lni rk l p bc)))"

definition owner_min :: "tnodes_cnode \<Rightarrow> bool" where
  "owner_min cn \<longleftrightarrow>
     (case owner cn of None \<Rightarrow> False
      | Some ow \<Rightarrow> ow < length (contr cn) \<and> (\<forall>c \<in> set (contr cn). rank (contr cn ! ow) \<le> rank c))"

definition smallest_seen :: "(nat \<times> int \<times> int \<times> int) list \<Rightarrow> nat \<Rightarrow> tnodes_contr \<Rightarrow> bool" where
  "smallest_seen log k c \<longleftrightarrow>
     (k, rank c, le c, nodene c) \<in> set log \<and>
     (\<forall>(k', r, l, p) \<in> set log. k' = k \<and> r = rank c \<longrightarrow> le c < l \<or> (le c = l \<and> nodene c \<le> p))"

definition cnode_ok :: "(nat \<times> int \<times> int \<times> int) list \<Rightarrow> nat \<Rightarrow> tnodes_cnode \<Rightarrow> bool" where
  "cnode_ok log k cn \<longleftrightarrow>
     owner_min cn \<and> distinct (map rank (contr cn)) \<and>
     (\<forall>c \<in> set (contr cn). smallest_seen log k c) \<and>
     (\<forall>(k', r, l, p) \<in> set log. k' = k \<longrightarrow> r \<in> rank ` set (contr cn))"

definition registry_ok :: "(nat \<times> int \<times> int \<times> int) list \<Rightarrow> tnodes_meta \<Rightarrow> bool" where
  "registry_ok log me \<longleftrightarrow>
     (\<forall>k < length (construct me). cnode_ok log k (construct me ! k)) \<and>
     (\<forall>(k', r, l, p) \<in> set log. k' < length (construct me))"

definition ownership_me :: tnodes_meta where
  "ownership_me =
     tnodes_meta_init
       \<lparr>f_mpisize = 2, f_mpirank = 1, local_num_quadrants = 1, f_quadrants_offset = [0],
        f_events = []\<rparr>
       (Some \<lparr>proc_offsets = [0, 1, 1], ghosts = [0]\<rparr>) False False"

definition ownership_calls :: "reg_call list" where
  "ownership_calls =
     [(- 1, - 1, 0, 1, P4EST_CONNECT_CORNER), (0, - 1, 0, 0, P4EST_CONNECT_CORNER),
      (0, 0, 0, 3, P4EST_CONNECT_CORNER)]"

definition offsets_me :: tnodes_meta where
  "offsets_me =
     (tnodes_meta_init
        \<lparr>f_mpisize = 3, f_mpirank = 1, local_num_quadrants = 1, f_quadrants_offset = [0],
         f_events = []\<rparr>
        None True False)\<lparr>num_owned := 5\<rparr>"

text \<open>
  The events of a single tree refined once into four leaves of level 1, all on one
  process: four volumes, twelve faces and nine corners.
\<close>

definition uniform_events :: "iter_event list" where
  "uniform_events =
     map (\<lambda>q. Volume_event \<lparr>vi_treeid = 0, vi_quadid = int q, vi_level = 1, vi_childid = int q\<rparr>)
       [0 ..< 4] @
     [Face_event \<lparr>orientation = 0, fi_sides = [Side_full 0 1 False 0, Side_full 0 0 False 1]\<rparr>,
      Face_event \<lparr>orientation = 0, fi_sides = [Side_full 0 1 False 2, Side_full 0 0 False 3]\<rparr>,
      Face_event \<lparr>orientation = 0, fi_sides = [Side_full 0 3 False 0, Side_full 0 2 False 2]\<rparr>,
      Face_event \<lparr>orientation = 0, fi_sides = [Side_full 0 3 False 1, Side_full 0 2 False 3]\<rparr>,
      Face_event \<lparr>orientation = 0, fi_sides = [Side_full 0 0 False 0]\<rparr>,
      Face_event \<lparr>orientation = 0, fi_sides = [Side_full 0 0 False 2]\<rparr>,
      Face_event \<lparr>orientation = 0, fi_sides = [Side_full 0 1 False 1]\<rparr>,
      Face_event \<lparr>orientation = 0, fi_sides = [Side_full 0 1 False 3]\<rparr>,
      Face_event \<lparr>orientation = 0, fi_sides = [Side_full 0 2 False 0]\<rparr>,
      Face_event \<lparr>orientation = 0, fi_sides = [Side_full 0 2 False 1]\<rparr>,
      Face_event \<lparr>orientation = 0, fi_sides = [Side_full 0 3 False 2]\<rparr>,
      Face_event \<lparr>orientation = 0, fi_sides = [Side_full 0 3 False 3]\<rparr>,
      Corner_event \<lparr>ci_sides =
        [\<lparr>cs_treeid = 0, cs_corner = 3, cs_is_ghost = False, cs_quadid = 0\<rparr>,
         \<lparr>cs_treeid = 0, cs_corner = 2, cs_is_ghost = False, cs_quadid = 1\<rparr>,
         \<lparr>cs_treeid = 0, cs_corner = 1, cs_is_ghost = False, cs_quadid = 2\<rparr>,
         \<lparr>cs_treeid = 0, cs_corner = 0, cs_is_ghost = False, cs_quadid = 3\<rparr>]\<rparr>,
      Corner_event \<lparr>ci_sides =
        [\<lparr>cs_treeid = 0, cs_corner = 1, cs_is_ghost = False, cs_quadid = 0\<rparr>,
         \<lparr>cs_treeid = 0, cs_corner = 0, cs_is_ghost = False, cs_quadid = 1\<rparr>]\<rparr>,
      Corner_event \<lparr>ci_sides =
        [\<lparr>cs_treeid = 0, cs_corner = 3, cs_is_ghost = False, cs_quadid = 2\<rparr>,
         \<lparr>cs_treeid = 0, cs_corner = 2, cs_is_ghost = False, cs_quadid = 3\<rparr>]\<rparr>,
      Corner_event \<lparr>ci_sides =
        [\<lparr>cs_treeid = 0, cs_corner = 2, cs_is_ghost = False, cs_quadid = 0\<rparr>,
         \<lparr>cs_treeid = 0, cs_corner = 0, cs_is_ghost = False, cs_quadid = 2\<rparr>]\<rparr>,
      Corner_event \<lparr>ci_sides =
        [\<lparr>cs_treeid = 0, cs_corner = 3, cs_is_ghost = False, cs_quadid = 1\<rparr>,
         \<lparr>cs_treeid = 0, cs_corner = 1, cs_is_ghost = False, cs_quadid = 3\<rparr>]\<rparr>,
      Corner_event \<lparr>ci_sides =
        [\<lparr>cs_treeid = 0, cs_corner = 0, cs_is_ghost = False, cs_quadid = 0\<rparr>]\<rparr>,
      Corner_event \<lparr>ci_sides =
        [\<lparr>cs_treeid = 0, cs_corner = 1, cs_is_ghost = False, cs_quadid = 1\<rparr>]\<rparr>,
      Corner_event \<lparr>ci_sides =
        [\<lparr>cs_treeid = 0, cs_corner = 2, cs_is_ghost = False, cs_quadid = 2\<rparr>]\<rparr>,
      Corner_event \<lparr>ci_sides =
        [\<lparr>cs_treeid = 0, cs_corner = 3, cs_is_ghost = False, cs_quadid = 3\<rparr>]\<rparr>]"

definition uniform_forest :: p4est_forest where
  "uniform_forest =
     \<lparr>f_mpisize = 1, f_mpirank = 0, local_num_quadrants = 4, f_quadrants_offset = [0],
      f_events = uniform_events\<rparr>"



text \<open>The members of the control structure that the traversal only reads.\<close>

definition static_part ::
  "tnodes_meta \<Rightarrow> (bool \<times> bool) \<times> (int \<times> int) \<times> (p4est_ghost option \<times> int list) \<times>
     (int list \<times> int) \<times> (nat \<times> int) \<times> tnodes_peer list \<times> int list \<times>
     (nat list \<times> int) \<times> p4est_lnodes_rank list \<times> (int \<times> int \<times> int)" where
  "static_part me =
     ((full_style me, with_faces me), (mpisize me, mpirank me), (ghost me, ghost_rank me),
      (quadrants_offset me, vnodes me), (length (element_nodes me), num_local_elements me),
      peers me, proc_peer me, (ownsort me, num_owned me), sharers me,
      (num_shared me, num_owned_shared me, emptypeers me))"

section \<open>Concrete forests\<close>

text \<open>A single process with a single leaf of level 0: one volume, four boundary faces, four corners.\<close>

definition unit_events :: "iter_event list" where
  "unit_events =
     Volume_event \<lparr>vi_treeid = 0, vi_quadid = 0, vi_level = 0, vi_childid = 0\<rparr> #
     map (\<lambda>f. Face_event \<lparr>orientation = 0, fi_sides = [Side_full 0 f False 0]\<rparr>) [0 ..< 4] @
     map (\<lambda>c. Corner_event \<lparr>ci_sides =
            [\<lparr>cs_treeid = 0, cs_corner = c, cs_is_ghost = False, cs_quadid = 0\<rparr>]\<rparr>) [0 ..< 4]"

definition unit_forest :: p4est_forest where
  "unit_forest =
     \<lparr>f_mpisize = 1, f_mpirank = 0, local_num_quadrants = 1, f_quadrants_offset = [0],
      f_events = unit_events\<rparr>"

definition unit_env :: mpi_env where
  "unit_env = \<lparr>allgathered = [0], waitsome = []\<rparr>"

text \<open>
  Two trees side by side on one process: the left tree is a leaf of level 0 (element 0),
  the right tree is refined once (elements 1 to 4).  Face 1 of element 0 meets the two
  small leaves with child ids 0 and 2 of the right tree at their face 0.
\<close>

definition cside :: "nat \<Rightarrow> nat \<Rightarrow> int \<Rightarrow> p4est_iter_corner_side" where
  "cside t c q = \<lparr>cs_treeid = t, cs_corner = c, cs_is_ghost = False, cs_quadid = q\<rparr>"

definition hanging_face :: p4est_iter_face_info where
  "hanging_face =
     \<lparr>orientation = 0,
      fi_sides = [Side_full 0 1 False 0, Side_hanging 1 0 [False, False] [0, 2] [0, 2]]\<rparr>"

definition hanging_events :: "iter_event list" where
  "hanging_events =
     Volume_event \<lparr>vi_treeid = 0, vi_quadid = 0, vi_level = 0, vi_childid = 0\<rparr> #
     map (\<lambda>q. Volume_event \<lparr>vi_treeid = 1, vi_quadid = int q, vi_level = 1, vi_childid = int q\<rparr>)
       [0 ..< 4] @
     [Face_event hanging_face,
      Face_event \<lparr>orientation = 0, fi_sides = [Side_full 0 0 False 0]\<rparr>,
      Face_event \<lparr>orientation = 0, fi_sides = [Side_full 0 2 False 0]\<rparr>,
      Face_event \<lparr>orientation = 0, fi_sides = [Side_full 0 3 False 0]\<rparr>,
      Face_event \<lparr>orientation = 0, fi_sides = [Side_full 1 1 False 0, Side_full 1 0 False 1]\<rparr>,
      Face_event \<lparr>orientation = 0, fi_sides = [Side_full 1 1 False 2, Side_full 1 0 False 3]\<rparr>,
      Face_event \<lparr>orientation = 0, fi_sides = [Side_full 1 3 False 0, Side_full 1 2 False 2]\<rparr>,
      Face_event \<lparr>orientation = 0, fi_sides = [Side_full 1 3 False 1, Side_full 1 2 False 3]\<rparr>,
      Face_event \<lparr>orientation = 0, fi_sides = [Side_full 1 1 False 1]\<rparr>,
      Face_event \<lparr>orientation = 0, fi_sides = [Side_full 1 1 False 3]\<rparr>,
      Face_event \<lparr>orientation = 0, fi_sides = [Side_full 1 2 False 0]\<rparr>,
      Face_event \<lparr>orientation = 0, fi_sides = [Side_full 1 2 False 1]\<rparr>,
      Face_event \<lparr>orientation = 0, fi_sides = [Side_full 1 3 False 2]\<rparr>,
      Face_event \<lparr>orientation = 0, fi_sides = [Side_full 1 3 False 3]\<rparr>,
      Corner_event \<lparr>ci_sides = [cside 0 0 0]\<rparr>,
      Corner_event \<lparr>ci_sides = [cside 0 2 0]\<rparr>,
      Corner_event \<lparr>ci_sides = [cside 0 1 0, cside 1 0 0]\<rparr>,
      Corner_event \<lparr>ci_sides = [cside 0 3 0, cside 1 2 2]\<rparr>,
      Corner_event \<lparr>ci_sides = [cside 1 3 0, cside 1 2 1, cside 1 1 2, cside 1 0 3]\<rparr>,
      Corner_event \<lparr>ci_sides = [cside 1 1 0, cside 1 0 1]\<rparr>,
      Corner_event \<lparr>ci_sides = [cside 1 3 2, cside 1 2 3]\<rparr>,
      Corner_event \<lparr>ci_sides = [cside 1 3 1, cside 1 1 3]\<rparr>,
      Corner_event \<lparr>ci_sides = [cside 1 1 1]\<rparr>,
      Corner_event \<lparr>ci_sides = [cside 1 3 3]\<rparr>]"

definition hanging_forest :: p4est_forest where
  "hanging_forest =
     \<lparr>f_mpisize = 1, f_mpirank = 0, local_num_quadrants = 5, f_quadrants_offset = [0, 1],
      f_events = hanging_events\<rparr>"

text \<open>The codes the final assertion of the constructor admits: 0 to 16 and 32.\<close>

definition valid_config :: "8 word \<Rightarrow> bool" where
  "valid_config c \<longleftrightarrow> c \<le> 16 \<or> c = 32"

text \<open>Face numbers of a quadrant are 0 to 3.\<close>

fun faces_ok :: "iter_event \<Rightarrow> bool" where
  "faces_ok (Face_event fi) = list_all (\<lambda>fs. fs_face fs < 4) (fi_sides fi)"
| "faces_ok ev = True"
text \<open>
  The members that no phase after the traversal writes, with the owner and the contributors
  of every node (the later phases only change \<open>runid\<close>).
\<close>

definition kept_part ::
  "tnodes_meta \<Rightarrow> (8 word list \<times> 8 word list) \<times> (bool \<times> bool) \<times> (int \<times> int) \<times>
     (int \<times> int) \<times> p4est_ghost option \<times> (nat option \<times> tnodes_contr list) list" where
  "kept_part me =
     ((configuration me, face_code me), (full_style me, with_faces me), (mpisize me, mpirank me),
      (vnodes me, num_local_elements me), ghost me,
      map (\<lambda>cn. (owner cn, contr cn)) (construct me))"

definition unit_result :: tnodes_meta where
  "unit_result = the (p4est_tnodes_new unit_forest None unit_env True False)"

definition hanging_me :: tnodes_meta where
  "hanging_me = p4est_iterate (take 5 hanging_events) (tnodes_meta_init hanging_forest None False False)"

text \<open>The single leaf and the forest with the hanging face after the whole traversal.\<close>

definition unit_traversed :: tnodes_meta where
  "unit_traversed = p4est_iterate unit_events (tnodes_meta_init unit_forest None True False)"

definition hanging_traversed :: tnodes_meta where
  "hanging_traversed =
     p4est_iterate hanging_events (tnodes_meta_init hanging_forest None False False)"

text \<open>
  Two trees side by side, each a leaf of level 0; the left leaf belongs to process 0 and
  the right leaf to process 1.  This is the view of process 1: its element 0 is the right
  leaf, its only ghost is the left leaf (element 0 of process 0).  Process 0 owns five
  nodes, and its numbers of the two shared corners (positions 1 and 3 there) are 1 and 3.
\<close>

definition strip_ghost :: p4est_ghost where
  "strip_ghost = \<lparr>proc_offsets = [0, 1, 1], ghosts = [0]\<rparr>"

definition gside :: "nat \<Rightarrow> nat \<Rightarrow> int \<Rightarrow> p4est_iter_corner_side" where
  "gside t c g = \<lparr>cs_treeid = t, cs_corner = c, cs_is_ghost = True, cs_quadid = g\<rparr>"

definition strip_events :: "iter_event list" where
  "strip_events =
     [Volume_event \<lparr>vi_treeid = 1, vi_quadid = 0, vi_level = 0, vi_childid = 0\<rparr>,
      Face_event \<lparr>orientation = 0, fi_sides = [Side_full 0 1 True 0, Side_full 1 0 False 0]\<rparr>,
      Face_event \<lparr>orientation = 0, fi_sides = [Side_full 1 1 False 0]\<rparr>,
      Face_event \<lparr>orientation = 0, fi_sides = [Side_full 1 2 False 0]\<rparr>,
      Face_event \<lparr>orientation = 0, fi_sides = [Side_full 1 3 False 0]\<rparr>,
      Corner_event \<lparr>ci_sides = [gside 0 1 0, cside 1 0 0]\<rparr>,
      Corner_event \<lparr>ci_sides = [gside 0 3 0, cside 1 2 0]\<rparr>,
      Corner_event \<lparr>ci_sides = [cside 1 1 0]\<rparr>,
      Corner_event \<lparr>ci_sides = [cside 1 3 0]\<rparr>]"

definition strip_forest :: p4est_forest where
  "strip_forest =
     \<lparr>f_mpisize = 2, f_mpirank = 1, local_num_quadrants = 1, f_quadrants_offset = [0, 0],
      f_events = strip_events\<rparr>"

definition strip_env :: mpi_env where
  "strip_env = \<lparr>allgathered = [5, 0], waitsome = [[(0, [])], [(0, [1, 3])]]\<rparr>"

subsection \<open>Always-owned positions\<close>

text \<open>
  The positions of the table \<open>alwaysowned\<close>: the centre, the four midpoints between the
  centre and a corner, and the four centres of split faces.
\<close>

definition always_owned :: "int \<Rightarrow> bool" where
  "always_owned p \<longleftrightarrow> 0 \<le> p \<and> p < 25 \<and> alwaysowned ! nat p = 1"

text \<open>Corner numbers of a quadrant are 0 to 3.\<close>

fun corners_ok :: "iter_event \<Rightarrow> bool" where
  "corners_ok (Corner_event ci) = list_all (\<lambda>cs. cs_corner cs < 4) (ci_sides ci)"
| "corners_ok ev = True"

text \<open>
  A position is shareable when it is a position of the element (below \<open>vnodes\<close>) that is
  not always owned.  A node is plain when all its contributors sit at shareable positions;
  it is solely local when its one contributor is the process \<open>r\<close>, which then owns it.
\<close>

definition shareable :: "int \<Rightarrow> int \<Rightarrow> bool" where
  "shareable vn p \<longleftrightarrow> \<not> always_owned p \<and> 0 \<le> p \<and> p < vn"

definition plain :: "int \<Rightarrow> tnodes_cnode \<Rightarrow> bool" where
  "plain vn cn \<longleftrightarrow> list_all (\<lambda>c. shareable vn (nodene c)) (contr cn)"

definition sole_local :: "int \<Rightarrow> tnodes_cnode \<Rightarrow> bool" where
  "sole_local r cn \<longleftrightarrow> length (contr cn) = 1 \<and> rank (contr cn ! 0) = r \<and> owner cn = Some 0"

text \<open>
  Ghost numbers in the events are indices into the ghost layer, which has \<open>n\<close> quadrants.
\<close>

definition ghostid_ok :: "nat \<Rightarrow> int \<Rightarrow> bool" where
  "ghostid_ok n g \<longleftrightarrow> 0 \<le> g \<and> nat g < n"

fun side_ghosts_ok :: "nat \<Rightarrow> p4est_iter_face_side \<Rightarrow> bool" where
  "side_ghosts_ok n (Side_full t f g q) = (g \<longrightarrow> ghostid_ok n q)"
| "side_ghosts_ok n (Side_hanging t f gs qs cs) =
     list_all (\<lambda>j. gs ! j \<longrightarrow> ghostid_ok n (qs ! j)) [0 ..< 2]"

fun ghosts_ok :: "nat \<Rightarrow> iter_event \<Rightarrow> bool" where
  "ghosts_ok n (Face_event fi) = list_all (side_ghosts_ok n) (fi_sides fi)"
| "ghosts_ok n (Corner_event ci) =
     list_all (\<lambda>cs. cs_is_ghost cs \<longrightarrow> ghostid_ok n (cs_quadid cs)) (ci_sides ci)"
| "ghosts_ok n (Volume_event vi) = True"

text \<open>The ranks \<open>peer_access\<close> can look up in \<open>proc_peer\<close>.\<close>

abbreviation peer_slots :: "tnodes_meta \<Rightarrow> int" where
  "peer_slots me \<equiv> int (length (proc_peer me))"

text \<open>
  What the traversal keeps true of the node at place \<open>k\<close> of the registry: its running
  number is \<open>k\<close>, its owner is a contributor of smallest rank, no rank contributes twice,
  every remote contributor has a rank that \<open>proc_peer\<close> covers, and the node is plain or solely
  local.
\<close>

definition node_inv :: "int \<Rightarrow> int \<Rightarrow> int \<Rightarrow> nat \<Rightarrow> tnodes_cnode \<Rightarrow> bool" where
  "node_inv r s vn k cn \<longleftrightarrow>
     runid cn = int k \<and> owner_min cn \<and> distinct (map rank (contr cn)) \<and>
     list_all (\<lambda>c. rank c = r \<or> (0 \<le> rank c \<and> rank c < s)) (contr cn) \<and>
     (plain vn cn \<or> sole_local r cn)"

definition interior_inv :: "nat \<Rightarrow> tnodes_meta \<Rightarrow> bool" where
  "interior_inv n me \<longleftrightarrow>
     9 \<le> vnodes me \<and> (with_faces me \<longrightarrow> 25 \<le> vnodes me) \<and>
     length (ghost_rank me) = n \<and>
     list_all (\<lambda>r. 0 \<le> r \<and> r < peer_slots me) (ghost_rank me) \<and>
     (\<forall>k < length (construct me).
        node_inv (mpirank me) (peer_slots me) (vnodes me) k (construct me ! k))"

definition lni_plain :: "tnodes_meta \<Rightarrow> int \<Rightarrow> bool" where
  "lni_plain me lni \<longleftrightarrow>
     lni = - 1 \<or>
     (0 \<le> lni \<and> nat lni < length (construct me) \<and> plain (vnodes me) (construct me ! nat lni))"

definition face_inv :: "nat \<Rightarrow> face_nodes \<Rightarrow> bool" where
  "face_inv n st \<longleftrightarrow>
     (case st of (me, lni, lnh) \<Rightarrow>
        interior_inv n me \<and> lni_plain me lni \<and> length lnh = 2 \<and> list_all (lni_plain me) lnh)"

text \<open>The second state is reached from the first by registrations that keep plain nodes plain.\<close>

definition grows :: "tnodes_meta \<Rightarrow> tnodes_meta \<Rightarrow> bool" where
  "grows a b \<longleftrightarrow>
     mpirank b = mpirank a \<and> vnodes b = vnodes a \<and> with_faces b = with_faces a \<and>
     proc_peer b = proc_peer a \<and> ghost_rank b = ghost_rank a \<and>
     (\<forall>n. interior_inv n a \<longrightarrow> interior_inv n b) \<and>
     (\<forall>x. lni_plain a x \<longrightarrow> lni_plain b x)"

subsection \<open>Element slots during the traversal\<close>

text \<open>
  The element number of a local full side of a face is not negative (\<open>tree_quad_to_le\<close>
  asserts a quadrant number that is not negative and adds the offset of the tree).
\<close>

fun full_sides_ok :: "int list \<Rightarrow> iter_event \<Rightarrow> bool" where
  "full_sides_ok qo (Face_event fi) =
     list_all (\<lambda>fs. \<not> is_hanging fs \<and> \<not> fu_is_ghost fs \<longrightarrow> 0 \<le> qo ! fs_treeid fs + fu_quadid fs)
       (fi_sides fi)"
| "full_sides_ok qo (Volume_event vi) = True"
| "full_sides_ok qo (Corner_event ci) = True"

text \<open>A value of a node variable: the sentinel or the number of a node of the registry.\<close>

definition node_ref :: "tnodes_meta \<Rightarrow> int \<Rightarrow> bool" where
  "node_ref me x \<longleftrightarrow> x = - 1 \<or> (0 \<le> x \<and> nat x < length (construct me))"

text \<open>
  What the traversal keeps true of the element slots: every slot holds the sentinel or a
  node of the registry; the slots listed in \<open>S\<close> hold a node; and without face nodes the
  centre slot of every element whose configuration is neither 0 nor \<open>1 << 4\<close> holds a node.
\<close>

definition slots_inv :: "nat list \<Rightarrow> tnodes_meta \<Rightarrow> bool" where
  "slots_inv S me \<longleftrightarrow>
     0 \<le> lenum me \<and> 9 \<le> vnodes me \<and>
     length (element_nodes me) = length (configuration me) * nat (vnodes me) \<and>
     list_all (node_ref me) (element_nodes me) \<and>
     list_all (\<lambda>i. element_nodes me ! i \<noteq> - 1) S \<and>
     (\<not> with_faces me \<longrightarrow>
        list_all (\<lambda>l. configuration me ! l AND NOT (push_bit 4 1) \<noteq> 0 \<longrightarrow>
                      element_nodes me ! (l * nat (vnodes me) + 4) \<noteq> - 1)
          [0 ..< length (configuration me)])"

definition slots_face :: "nat list \<Rightarrow> face_nodes \<Rightarrow> bool" where
  "slots_face S st \<longleftrightarrow>
     (case st of (me, lni, lnh) \<Rightarrow>
        slots_inv S me \<and> node_ref me lni \<and> length lnh = 2 \<and> list_all (node_ref me) lnh)"

section \<open>The candidate registry\<close>

lemma find_contr_None: "find_contr cs rk n = None \<longleftrightarrow> rk \<notin> rank ` set cs"
  by (induction cs arbitrary: n) auto

lemma find_contr_Some:
  "find_contr cs rk n = Some z \<Longrightarrow> n \<le> z \<and> z - n < length cs \<and> rank (cs ! (z - n)) = rk"
proof (induction cs arbitrary: n)
  case Nil
  then show ?case by simp
next
  case (Cons c cs)
  show ?case
  proof (cases "rank c = rk")
    case True
    with Cons.prems show ?thesis by simp
  next
    case False
    with Cons.prems have "find_contr cs rk (Suc n) = Some z" by simp
    from Cons.IH [OF this] have "Suc n \<le> z" "z - Suc n < length cs" "rank (cs ! (z - Suc n)) = rk"
      by auto
    moreover from \<open>Suc n \<le> z\<close> have "z - n = Suc (z - Suc n)" by simp
    ultimately show ?thesis by simp
  qed
qed

lemma rescan_fold:
  "1 \<le> length cs \<Longrightarrow> m \<le> length cs \<Longrightarrow>
   (let ow = fold (\<lambda>zz ow. if rank (cs ! zz) < rank (cs ! ow) then zz else ow) [1 ..< m] 0
    in ow < length cs \<and> (\<forall>i < m. rank (cs ! ow) \<le> rank (cs ! i)) \<and> (m \<le> 1 \<longrightarrow> ow = 0) \<and> (1 < m \<longrightarrow> ow < m))"
proof (induction m)
  case 0
  then have "0 < length cs" by (simp add: Suc_le_eq)
  then show ?case by simp
next
  case (Suc m)
  from Suc.prems have pos: "0 < length cs" by (simp add: Suc_le_eq)
  show ?case
  proof (cases "m = 0")
    case True
    then show ?thesis using pos by simp
  next
    case False
    then have up: "[1 ..< Suc m] = [1 ..< m] @ [m]" by simp
    from Suc.prems have "m \<le> length cs" by simp
    from Suc.IH [OF Suc.prems(1) this] show ?thesis
      unfolding up using False Suc.prems
      by (auto simp: Let_def less_Suc_eq)
  qed
qed

lemma rescan_owner_min:
  assumes "2 \<le> length cs"
  shows "rescan_owner cs < length cs - 1"
    and "\<forall>i < length cs - 1. rank (cs ! rescan_owner cs) \<le> rank (cs ! i)"
proof -
  have "1 \<le> length cs" "length cs - 1 \<le> length cs" using assms by auto
  from rescan_fold [OF this] show "rescan_owner cs < length cs - 1"
    and "\<forall>i < length cs - 1. rank (cs ! rescan_owner cs) \<le> rank (cs ! i)"
    using assms by (auto simp: rescan_owner_def Let_def)
qed


lemma smallest_seen_frame:
  "smallest_seen log k c \<Longrightarrow> k' \<noteq> k \<or> r \<noteq> rank c \<Longrightarrow> smallest_seen (log @ [(k', r, l, p)]) k c"
  by (auto simp: smallest_seen_def)

lemma cnode_ok_frame:
  "cnode_ok log j cn \<Longrightarrow> j \<noteq> k \<Longrightarrow> cnode_ok (log @ [(k, r, l, p)]) j cn"
  by (auto simp: cnode_ok_def intro: smallest_seen_frame)

lemma contribute_found:
  assumes ok: "cnode_ok log k cn" and f: "find_contr (contr cn) rk 0 = Some z"
  shows "cnode_ok (log @ [(k, rk, l, p)]) k (cnode_contribute cn rk l p)"
proof -
  let ?cs = "contr cn"
  let ?c = "?cs ! z"
  from find_contr_Some [OF f] have z: "z < length ?cs" and rz: "rank ?c = rk" by auto
  from ok have dist: "distinct (map rank ?cs)" and om: "owner_min cn"
    and seen: "\<forall>c \<in> set ?cs. smallest_seen log k c"
    and all: "\<forall>(k', r, l, p) \<in> set log. k' = k \<longrightarrow> r \<in> rank ` set ?cs"
    by (auto simp: cnode_ok_def)
  have other: "rank (?cs ! i) \<noteq> rk" if "i < length ?cs" "i \<noteq> z" for i
    using dist that z rz by (metis length_map nth_eq_iff_index_eq nth_map)
  have cz: "smallest_seen log k ?c" using seen z by simp
  show ?thesis
  proof (cases "l < le ?c \<or> (l = le ?c \<and> p < nodene ?c)")
    case True
    let ?c' = "?c\<lparr>nodene := p, le := l\<rparr>"
    let ?cs' = "?cs[z := ?c']"
    have eq: "cnode_contribute cn rk l p = cn\<lparr>contr := ?cs'\<rparr>"
      using f True by (simp add: cnode_contribute_def Let_def)
    have ranks: "map rank ?cs' = map rank ?cs"
      using z by (simp add: map_update list_update_same_conv)
    have rk_nth: "rank (?cs' ! i) = rank (?cs ! i)" if "i < length ?cs" for i
      using that by (cases "i = z") auto
    have om': "owner_min (cn\<lparr>contr := ?cs'\<rparr>)"
    proof -
      from om obtain ow where ow: "owner cn = Some ow" "ow < length ?cs"
        "\<forall>c \<in> set ?cs. rank (?cs ! ow) \<le> rank c"
        by (auto simp: owner_min_def split: option.splits)
      have "rank (?cs' ! ow) \<le> rank c" if "c \<in> set ?cs'" for c
      proof -
        from that obtain i where i: "i < length ?cs" "c = ?cs' ! i"
          by (auto simp: in_set_conv_nth)
        have "rank (?cs ! ow) \<le> rank (?cs ! i)" using ow(3) i(1) by simp
        then show ?thesis using i ow(2) rk_nth by simp
      qed
      then show ?thesis using ow by (simp add: owner_min_def)
    qed
    have new: "smallest_seen (log @ [(k, rk, l, p)]) k ?c'"
      using cz True rz by (fastforce simp: smallest_seen_def)
    have seen': "smallest_seen (log @ [(k, rk, l, p)]) k c" if "c \<in> set ?cs'" for c
    proof -
      from that obtain i where i: "i < length ?cs" "c = ?cs' ! i"
        by (auto simp: in_set_conv_nth)
      show ?thesis
      proof (cases "i = z")
        case True
        then show ?thesis using i new by simp
      next
        case False
        then have "c = ?cs ! i" using i by simp
        moreover have "smallest_seen log k (?cs ! i)" using seen i(1) by simp
        moreover have "rank (?cs ! i) \<noteq> rk" using other i(1) False by simp
        ultimately show ?thesis by (auto intro: smallest_seen_frame)
      qed
    qed
    have rset: "rank ` set ?cs' = rank ` set ?cs"
      using ranks by (metis list.set_map)
    have all': "\<forall>(k', r, l', p') \<in> set (log @ [(k, rk, l, p)]). k' = k \<longrightarrow> r \<in> rank ` set ?cs'"
      unfolding rset using all z rz by (auto simp: image_iff)
    show ?thesis
      unfolding eq cnode_ok_def using om' dist ranks seen' all' by simp
  next
    case False
    have eq: "cnode_contribute cn rk l p = cn"
      using f False by (auto simp: cnode_contribute_def Let_def)
    have seen': "smallest_seen (log @ [(k, rk, l, p)]) k c" if "c \<in> set ?cs" for c
    proof -
      from that obtain i where i: "i < length ?cs" "c = ?cs ! i"
        by (auto simp: in_set_conv_nth)
      show ?thesis
      proof (cases "i = z")
        case True
        then show ?thesis using i cz False by (fastforce simp: smallest_seen_def)
      next
        case F: False
        have "smallest_seen log k (?cs ! i)" using seen i(1) by simp
        moreover have "rank (?cs ! i) \<noteq> rk" using other i(1) F by simp
        ultimately show ?thesis using i by (auto intro: smallest_seen_frame)
      qed
    qed
    have all': "\<forall>(k', r, l', p') \<in> set (log @ [(k, rk, l, p)]). k' = k \<longrightarrow> r \<in> rank ` set ?cs"
      using all z rz by (auto simp: image_iff)
    show ?thesis
      unfolding eq cnode_ok_def using om dist seen' all' by simp
  qed
qed


lemma contribute_new_rank:
  assumes pre: "(contr cn = [] \<and> owner cn = None) \<or> owner_min cn"
    and dist: "distinct (map rank (contr cn))"
    and seen: "\<forall>c \<in> set (contr cn). smallest_seen log k c"
    and all: "\<forall>(k', r, l, p) \<in> set log. k' = k \<longrightarrow> r \<in> rank ` set (contr cn)"
    and f: "find_contr (contr cn) rk 0 = None"
  shows "cnode_ok (log @ [(k, rk, l, p)]) k (cnode_contribute cn rk l p)"
proof -
  let ?cs = "contr cn"
  let ?new = "\<lparr>nodene = p, rank = rk, le = l\<rparr>"
  let ?cs' = "?cs @ [?new]"
  let ?cn' = "cnode_contribute cn rk l p"
  from f have fresh: "rk \<notin> rank ` set ?cs" by (simp add: find_contr_None)
  have cs': "contr ?cn' = ?cs'"
    using f by (simp add: cnode_contribute_def Let_def)
  have dist': "distinct (map rank ?cs')" using dist fresh by simp
  have new: "smallest_seen (log @ [(k, rk, l, p)]) k ?new"
    using all fresh by (fastforce simp: smallest_seen_def)
  have seen': "smallest_seen (log @ [(k, rk, l, p)]) k c" if "c \<in> set ?cs'" for c
  proof (cases "c = ?new")
    case True
    then show ?thesis using new by simp
  next
    case False
    with that have c: "c \<in> set ?cs" by simp
    then have "rank c \<noteq> rk" using fresh by auto
    then show ?thesis using seen c by (auto intro: smallest_seen_frame)
  qed
  have all': "\<forall>(k', r, l', p') \<in> set (log @ [(k, rk, l, p)]). k' = k \<longrightarrow> r \<in> rank ` set ?cs'"
    using all by auto
  have om': "owner_min ?cn'"
  proof (cases "owner cn")
    case None
    with pre have empty: "?cs = []" by (auto simp: owner_min_def)
    have "owner ?cn' = Some 0"
      using f None empty by (simp add: cnode_contribute_def Let_def)
    then show ?thesis using cs' empty by (simp add: owner_min_def)
  next
    case (Some ow)
    with pre have ow: "ow < length ?cs" "\<forall>c \<in> set ?cs. rank (?cs ! ow) \<le> rank c"
      by (auto simp: owner_min_def)
    show ?thesis
    proof (cases "rk \<le> rank (?cs ! ow)")
      case True
      have "owner ?cn' = Some (length ?cs)"
        using f Some True by (simp add: cnode_contribute_def Let_def)
      moreover have "\<forall>c \<in> set ?cs'. rk \<le> rank c" using True ow(2) by auto
      ultimately show ?thesis using cs' by (simp add: owner_min_def)
    next
      case False
      have own: "owner ?cn' = Some (rescan_owner ?cs')"
        using f Some False by (simp add: cnode_contribute_def Let_def)
      have len: "2 \<le> length ?cs'" using ow(1) by simp
      from rescan_owner_min [OF len]
      have r1: "rescan_owner ?cs' < length ?cs"
        and r2: "\<forall>i < length ?cs. rank (?cs' ! rescan_owner ?cs') \<le> rank (?cs' ! i)"
        by simp_all
      have "rank (?cs' ! rescan_owner ?cs') \<le> rank c" if "c \<in> set ?cs'" for c
      proof (cases "c = ?new")
        case True
        have "rank (?cs' ! rescan_owner ?cs') \<le> rank (?cs' ! ow)" using r2 ow(1) by blast
        also have "\<dots> = rank (?cs ! ow)" using ow(1) by (simp add: nth_append)
        finally show ?thesis using False True by simp
      next
        case F: False
        with that obtain i where i: "i < length ?cs" "c = ?cs ! i"
          by (auto simp: in_set_conv_nth)
        then have "c = ?cs' ! i" by (simp add: nth_append)
        then show ?thesis using r2 i(1) by blast
      qed
      then show ?thesis using own cs' r1 by (simp add: owner_min_def)
    qed
  qed
  show ?thesis
    unfolding cnode_ok_def using om' dist' seen' all' cs' by simp
qed

lemma contribute_ok:
  assumes "cnode_ok log k cn"
  shows "cnode_ok (log @ [(k, rk, l, p)]) k (cnode_contribute cn rk l p)"
proof (cases "find_contr (contr cn) rk 0")
  case None
  then show ?thesis using assms by (intro contribute_new_rank) (auto simp: cnode_ok_def)
next
  case (Some z)
  then show ?thesis using assms by (rule contribute_found [rotated])
qed

lemma contribute_fresh:
  assumes "\<forall>(k', r, l, p) \<in> set log. k' \<noteq> k"
  shows "cnode_ok (log @ [(k, rk, l, p)]) k
           (cnode_contribute \<lparr>runid = x, bcon = bc, owner = None, contr = []\<rparr> rk l p)"
  using assms by (intro contribute_new_rank) auto


lemma node_register_new:
  "snd (node_register me (- 1) rk l p bc) = int (length (construct me))"
  "construct (fst (node_register me (- 1) rk l p bc)) =
     construct me @ [cnode_contribute \<lparr>runid = int (length (construct me)), bcon = bc,
        owner = None, contr = []\<rparr> (if rk = - 1 then mpirank me else rk) l p]"
  by (simp_all add: node_register_def Let_def)

lemma node_register_old:
  "lni \<noteq> - 1 \<Longrightarrow> snd (node_register me lni rk l p bc) = lni"
  "lni \<noteq> - 1 \<Longrightarrow> construct (fst (node_register me lni rk l p bc)) =
     (construct me)[nat lni := cnode_contribute (construct me ! nat lni)
        (if rk = - 1 then mpirank me else rk) l p]"
  by (simp_all add: node_register_def Let_def)

lemma node_register_ok:
  assumes ok: "registry_ok log me" and lo: "- 1 \<le> lni" and hi: "lni < int (length (construct me))"
  shows "registry_ok
           (log @ [(nat (snd (node_register me lni rk l p bc)),
                    (if rk = - 1 then mpirank me else rk), l, p)])
           (fst (node_register me lni rk l p bc))"
proof (cases "lni = - 1")
  case True
  let ?n = "length (construct me)"
  let ?r = "if rk = - 1 then mpirank me else rk"
  let ?cn = "cnode_contribute \<lparr>runid = int ?n, bcon = bc, owner = None, contr = []\<rparr> ?r l p"
  from ok have bound: "\<forall>(k', r, l, p) \<in> set log. k' < ?n"
    and each: "\<forall>k < ?n. cnode_ok log k (construct me ! k)"
    by (auto simp: registry_ok_def)
  from bound have "\<forall>(k', r, l, p) \<in> set log. k' \<noteq> ?n" by auto
  from contribute_fresh [OF this] have new: "cnode_ok (log @ [(?n, ?r, l, p)]) ?n ?cn" .
  have "cnode_ok (log @ [(?n, ?r, l, p)]) k ((construct me @ [?cn]) ! k)" if "k < Suc ?n" for k
  proof (cases "k = ?n")
    case True
    then show ?thesis using new by simp
  next
    case False
    with that have "k < ?n" by simp
    then show ?thesis using each False by (simp add: nth_append cnode_ok_frame)
  qed
  moreover have "\<forall>(k', r, l', p') \<in> set (log @ [(?n, ?r, l, p)]). k' < Suc ?n"
    using bound by auto
  ultimately show ?thesis
    unfolding True by (simp add: registry_ok_def node_register_new)
next
  case False
  let ?n = "length (construct me)"
  let ?r = "if rk = - 1 then mpirank me else rk"
  let ?j = "nat lni"
  let ?cn = "cnode_contribute (construct me ! ?j) ?r l p"
  from False lo hi have j: "?j < ?n" by auto
  from ok have bound: "\<forall>(k', r, l, p) \<in> set log. k' < ?n"
    and each: "\<forall>k < ?n. cnode_ok log k (construct me ! k)"
    by (auto simp: registry_ok_def)
  have new: "cnode_ok (log @ [(?j, ?r, l, p)]) ?j ?cn"
    using each j by (simp add: contribute_ok)
  have "cnode_ok (log @ [(?j, ?r, l, p)]) k ((construct me)[?j := ?cn] ! k)" if "k < ?n" for k
  proof (cases "k = ?j")
    case True
    then show ?thesis using new j by simp
  next
    case F: False
    then show ?thesis using each that by (simp add: cnode_ok_frame)
  qed
  moreover have "\<forall>(k', r, l', p') \<in> set (log @ [(?j, ?r, l, p)]). k' < ?n"
    using bound j by auto
  ultimately show ?thesis
    using False by (simp add: registry_ok_def node_register_old)
qed

lemma register_all_snoc:
  "register_all (cs @ [(lni, rk, l, p, bc)]) me =
     fst (node_register (register_all cs me) lni rk l p bc)"
  by (induction cs me rule: register_all.induct) auto

lemma contributions_snoc:
  "contributions (cs @ [(lni, rk, l, p, bc)]) me =
     contributions cs me @
       [(nat (snd (node_register (register_all cs me) lni rk l p bc)),
         (if rk = - 1 then mpirank (register_all cs me) else rk), l, p)]"
  by (induction cs me rule: contributions.induct) auto

lemma calls_ok_snoc:
  "calls_ok (cs @ [(lni, rk, l, p, bc)]) me \<longleftrightarrow>
     calls_ok cs me \<and> - 1 \<le> lni \<and> lni < int (length (construct (register_all cs me)))"
  by (induction cs me rule: calls_ok.induct) auto

lemma registry_ok_all:
  "construct me = [] \<Longrightarrow> calls_ok cs me \<Longrightarrow> registry_ok (contributions cs me) (register_all cs me)"
proof (induction cs rule: rev_induct)
  case Nil
  then show ?case by (simp add: registry_ok_def)
next
  case (snoc c cs)
  obtain lni rk l p bc where c: "c = (lni, rk, l, p, bc)" by (cases c) auto
  from snoc.prems have ok: "calls_ok cs me" and lo: "- 1 \<le> lni"
    and hi: "lni < int (length (construct (register_all cs me)))"
    by (simp_all add: c calls_ok_snoc)
  from snoc.IH [OF snoc.prems(1) ok] have "registry_ok (contributions cs me) (register_all cs me)" .
  from node_register_ok [OF this lo hi] show ?case
    by (simp add: c register_all_snoc contributions_snoc)
qed

text \<open>
  C3.  Start from the empty registry and run any sequence of calls of \<open>node_register\<close>
  whose \<open>lni\<close> arguments name existing nodes or are \<open>- 1\<close>.  Then every candidate node
  \<open>k\<close> has an owner index that points into its contributor list at a contributor of
  smallest rank; the ranks of its contributors are pairwise distinct; every contributor
  entry is one of the (element, position) pairs registered for its rank on this node and
  is lexicographically smallest among them; and every rank that registered on the node has
  an entry.  Since the sequence is arbitrary, this holds after every call.
\<close>

theorem node_register_ownership:
  assumes "construct me = []" and "calls_ok cs me"
    and "k < length (construct (register_all cs me))"
  shows "(let cn = construct (register_all cs me) ! k; log = contributions cs me
          in (\<exists>ow. owner cn = Some ow \<and> ow < length (contr cn) \<and>
                (\<forall>c \<in> set (contr cn). rank (contr cn ! ow) \<le> rank c)) \<and>
             distinct (map rank (contr cn)) \<and>
             (\<forall>c \<in> set (contr cn).
                (k, rank c, le c, nodene c) \<in> set log \<and>
                (\<forall>(k', r, l, p) \<in> set log.
                   k' = k \<and> r = rank c \<longrightarrow> le c < l \<or> (le c = l \<and> nodene c \<le> p))) \<and>
             (\<forall>(k', r, l, p) \<in> set log. k' = k \<longrightarrow> r \<in> rank ` set (contr cn)))"
proof -
  from registry_ok_all [OF assms(1,2)] assms(3)
  have "cnode_ok (contributions cs me) k (construct (register_all cs me) ! k)"
    by (simp add: registry_ok_def)
  then show ?thesis
    unfolding Let_def cnode_ok_def owner_min_def smallest_seen_def
    by (auto split: option.splits)
qed

theorem node_register_ownership_witness:
  "construct ownership_me = [] \<and> calls_ok ownership_calls ownership_me \<and>
   0 < length (construct (register_all ownership_calls ownership_me)) \<and>
   (let cn = construct (register_all ownership_calls ownership_me) ! 0
    in owner cn = Some 1 \<and>
       contr cn = [\<lparr>nodene = 0, rank = 1, le = 0\<rparr>, \<lparr>nodene = 3, rank = 0, le = 0\<rparr>] \<and>
       (\<exists>ow. owner cn = Some ow \<and> ow < length (contr cn) \<and>
          (\<forall>c \<in> set (contr cn). rank (contr cn ! ow) \<le> rank c)) \<and>
       distinct (map rank (contr cn)))"
proof -
  have h1: "construct ownership_me = []"
    by (simp add: ownership_me_def tnodes_meta_init_def)
  have h2: "calls_ok ownership_calls ownership_me"
    by code_simp
  have h3: "0 < length (construct (register_all ownership_calls ownership_me))"
    by code_simp
  have c1: "owner (construct (register_all ownership_calls ownership_me) ! 0) = Some 1"
    by code_simp
  have c2: "contr (construct (register_all ownership_calls ownership_me) ! 0) =
              [\<lparr>nodene = 0, rank = 1, le = 0\<rparr>, \<lparr>nodene = 3, rank = 0, le = 0\<rparr>]"
    by code_simp
  from node_register_ownership [OF h1 h2 h3] h1 h2 h3 c1 c2 show ?thesis
    unfolding Let_def by blast
qed

lemma goffset_scan_length: "length (goffset_scan gc cs) = length cs"
  by (induction cs arbitrary: gc) auto

lemma goffset_scan_nth:
  "q < length cs \<Longrightarrow> goffset_scan gc cs ! q = gc + sum_list (take (Suc q) cs)"
proof (induction cs arbitrary: gc q)
  case Nil
  then show ?case by simp
next
  case (Cons c cs)
  show ?case
  proof (cases q)
    case 0
    then show ?thesis by simp
  next
    case (Suc q')
    with Cons.prems have "q' < length cs" by simp
    from Cons.IH [OF this] show ?thesis using Suc by simp
  qed
qed

lemma goffset_of_length: "length (goffset_of cs) = Suc (length cs)"
  by (simp add: goffset_of_def goffset_scan_length)

lemma goffset_of_nth: "q \<le> length cs \<Longrightarrow> goffset_of cs ! q = sum_list (take q cs)"
  by (cases q) (simp_all add: goffset_of_def goffset_scan_nth)

lemma goffset_of_step:
  "q < length cs \<Longrightarrow> goffset_of cs ! Suc q = goffset_of cs ! q + cs ! q"
  by (simp add: goffset_of_nth take_Suc_conv_app_nth)

lemma goffset_of_mono:
  assumes nn: "\<forall>c \<in> set cs. 0 \<le> c" and "q \<le> q'" "q' \<le> length cs"
  shows "goffset_of cs ! q \<le> goffset_of cs ! q'"
  using assms(2,3)
proof (induction q' rule: dec_induct)
  case base
  then show ?case by simp
next
  case (step n)
  then have n: "n < length cs" by simp
  then have "0 \<le> cs ! n" using nn by simp
  then show ?case using step n by (simp add: goffset_of_step)
qed

lemma goffset_of_tiling:
  assumes nn: "\<forall>c \<in> set cs. 0 \<le> c" and x: "0 \<le> x" "x < goffset_of cs ! length cs"
  shows "\<exists>!q. q < length cs \<and> goffset_of cs ! q \<le> x \<and> x < goffset_of cs ! Suc q"
proof -
  let ?g = "goffset_of cs"
  let ?P = "\<lambda>q. x < ?g ! Suc q"
  have g0: "?g ! 0 = 0" by (simp add: goffset_of_def)
  have pos: "0 < length cs" using x g0 by (cases cs) auto
  then have "?P (length cs - 1)" using x by simp
  then have least: "?P (LEAST q. ?P q)" and le: "(LEAST q. ?P q) \<le> length cs - 1"
    by (rule LeastI, rule Least_le)
  define q where "q = (LEAST q. ?P q)"
  have q1: "q < length cs" using le pos unfolding q_def by linarith
  have q2: "x < ?g ! Suc q" using least by (simp add: q_def)
  have q3: "?g ! q \<le> x"
  proof (cases q)
    case 0
    then show ?thesis using g0 x by simp
  next
    case (Suc n)
    have "\<not> ?P n" using not_less_Least [of n ?P] Suc by (simp add: q_def)
    then show ?thesis using Suc by simp
  qed
  show ?thesis
  proof (rule ex1I [of _ q])
    show "q < length cs \<and> ?g ! q \<le> x \<and> x < ?g ! Suc q" using q1 q2 q3 by simp
  next
    fix r
    assume r: "r < length cs \<and> ?g ! r \<le> x \<and> x < ?g ! Suc r"
    show "r = q"
    proof (rule ccontr)
      assume "r \<noteq> q"
      then consider "r < q" | "q < r" by linarith
      then show False
      proof cases
        case 1
        then have "?g ! Suc r \<le> ?g ! q" using goffset_of_mono [OF nn, of "Suc r" q] q1 by simp
        then show False using r q3 by simp
      next
        case 2
        then have "?g ! Suc q \<le> ?g ! r" using goffset_of_mono [OF nn, of "Suc q" r] r by simp
        then show False using r q2 by simp
      qed
    qed
  qed
qed

lemma fold_set_runid_fields:
  "num_owned (fold (\<lambda>zz m. set_runid (f m zz) (g zz) m) zs me) = num_owned me"
  "num_shared (fold (\<lambda>zz m. set_runid (f m zz) (g zz) m) zs me) = num_shared me"
  "mpisize (fold (\<lambda>zz m. set_runid (f m zz) (g zz) m) zs me) = mpisize me"
  "mpirank (fold (\<lambda>zz m. set_runid (f m zz) (g zz) m) zs me) = mpirank me"
  by (induction zs arbitrary: me) (simp_all add: set_runid_def)

lemma sort_allgather_goffset:
  assumes "length gathered = nat (mpisize me)"
  shows "global_owned_count (sort_allgather gathered me) = gathered[nat (mpirank me) := num_owned me]"
    and "goffset (sort_allgather gathered me) = goffset_of (gathered[nat (mpirank me) := num_owned me])"
    and "global_offset (sort_allgather gathered me) =
           goffset_of (gathered[nat (mpirank me) := num_owned me]) ! nat (mpirank me)"
    and "owned_count (sort_allgather gathered me) = num_owned me"
proof -
  have "map ((!) (gathered[nat (mpirank me) := num_owned me])) [0 ..< nat (mpisize me)] =
          gathered[nat (mpirank me) := num_owned me]"
    using assms by (metis length_list_update map_nth)
  then show "global_owned_count (sort_allgather gathered me) = gathered[nat (mpirank me) := num_owned me]"
    and "goffset (sort_allgather gathered me) = goffset_of (gathered[nat (mpirank me) := num_owned me])"
    and "global_offset (sort_allgather gathered me) =
           goffset_of (gathered[nat (mpirank me) := num_owned me]) ! nat (mpirank me)"
    and "owned_count (sort_allgather gathered me) = num_owned me"
    by (simp_all add: sort_allgather_def Let_def fold_set_runid_fields)
qed


text \<open>
  C7.  \<open>sort_allgather\<close> gathers one owned count per rank (the local entry is the local
  \<open>owned_count\<close>) and scans them: the offset vector has one entry more than there are
  ranks, starts at 0, and each entry adds the count of the rank before it.  With counts
  that are not negative the vector is nondecreasing, its last entry is the sum of all
  counts, and every global number below that sum lies in the range
  \<open>[goffset[q], goffset[q+1])\<close> of exactly one rank \<open>q\<close>; the range of rank \<open>q\<close> has
  \<open>global_owned_count[q]\<close> members.
\<close>

theorem global_offsets_prefix_scan:
  assumes "length gathered = nat (mpisize me)"
    and "0 \<le> mpirank me" and "mpirank me < mpisize me"
    and "\<forall>c \<in> set gathered. 0 \<le> c" and "0 \<le> num_owned me"
  shows "(let me' = sort_allgather gathered me; g = goffset me';
              c = global_owned_count me'; s = nat (mpisize me)
          in length g = s + 1 \<and> g ! 0 = 0 \<and>
             (\<forall>q < s. g ! Suc q = g ! q + c ! q) \<and>
             (\<forall>q < s. g ! q \<le> g ! Suc q) \<and>
             g ! s = sum_list c \<and>
             c ! nat (mpirank me) = owned_count me' \<and>
             global_offset me' = g ! nat (mpirank me) \<and>
             (\<forall>x. 0 \<le> x \<and> x < g ! s \<longrightarrow> (\<exists>!q. q < s \<and> g ! q \<le> x \<and> x < g ! Suc q)))"
proof -
  let ?c = "gathered[nat (mpirank me) := num_owned me]"
  let ?g = "goffset_of ?c"
  let ?s = "nat (mpisize me)"
  have len: "length ?c = ?s" using assms(1) by simp
  have nn: "\<forall>c \<in> set ?c. 0 \<le> c"
    using assms(4,5) by (auto dest!: set_update_subset_insert [THEN subsetD])
  have r: "nat (mpirank me) < length gathered" using assms(1,2,3) by simp
  have a: "length ?g = ?s + 1" using len by (simp add: goffset_of_length)
  have b: "?g ! 0 = 0" by (simp add: goffset_of_def)
  have c: "\<forall>q < ?s. ?g ! Suc q = ?g ! q + ?c ! q" using len by (simp add: goffset_of_step)
  have d: "\<forall>q < ?s. ?g ! q \<le> ?g ! Suc q"
    using goffset_of_mono [OF nn] len by simp
  have e: "?g ! ?s = sum_list ?c" using len by (simp add: goffset_of_nth)
  have f: "?c ! nat (mpirank me) = num_owned me" using r by simp
  have g: "\<forall>x. 0 \<le> x \<and> x < ?g ! ?s \<longrightarrow> (\<exists>!q. q < ?s \<and> ?g ! q \<le> x \<and> x < ?g ! Suc q)"
    using goffset_of_tiling [OF nn] len by simp
  show ?thesis
    unfolding Let_def sort_allgather_goffset [OF assms(1)]
    using a b c d e f g by blast
qed

theorem global_offsets_prefix_scan_witness:
  "length [4, 0, 7 :: int] = nat (mpisize offsets_me) \<and>
   0 \<le> mpirank offsets_me \<and> mpirank offsets_me < mpisize offsets_me \<and>
   list_all (\<lambda>c. 0 \<le> c) [4, 0, 7 :: int] \<and> 0 \<le> num_owned offsets_me \<and>
   goffset (sort_allgather [4, 0, 7] offsets_me) = [0, 4, 9, 16] \<and>
   (let me' = sort_allgather [4, 0, 7] offsets_me; g = goffset me';
        c = global_owned_count me'; s = nat (mpisize offsets_me)
    in length g = s + 1 \<and> g ! 0 = 0 \<and>
       (\<forall>q < s. g ! Suc q = g ! q + c ! q) \<and>
       (\<forall>q < s. g ! q \<le> g ! Suc q) \<and>
       g ! s = sum_list c \<and>
       c ! nat (mpirank offsets_me) = owned_count me' \<and>
       global_offset me' = g ! nat (mpirank offsets_me) \<and>
       (\<forall>x. 0 \<le> x \<and> x < g ! s \<longrightarrow> (\<exists>!q. q < s \<and> g ! q \<le> x \<and> x < g ! Suc q)))"
proof -
  have h1: "length [4, 0, 7 :: int] = nat (mpisize offsets_me)"
    by (simp add: offsets_me_def tnodes_meta_init_def)
  have h2: "0 \<le> mpirank offsets_me" and h3: "mpirank offsets_me < mpisize offsets_me"
    by (simp_all add: offsets_me_def tnodes_meta_init_def)
  have h4: "\<forall>c \<in> set [4, 0, 7 :: int]. 0 \<le> c" by simp
  have h5: "0 \<le> num_owned offsets_me"
    by (simp add: offsets_me_def tnodes_meta_init_def)
  have v: "goffset (sort_allgather [4, 0, 7] offsets_me) = [0, 4, 9, 16]"
    by code_simp
  have h4': "list_all (\<lambda>c. 0 \<le> c) [4, 0, 7 :: int]" by simp
  from global_offsets_prefix_scan [OF h1 h2 h3 h4 h5] h1 h2 h3 h4' h5 v show ?thesis
    by blast
qed

section \<open>What a registration leaves unchanged\<close>

lemma cnode_contribute_fresh:
  "cnode_contribute \<lparr>runid = x, bcon = bc, owner = None, contr = []\<rparr> rk l p =
     \<lparr>runid = x, bcon = bc, owner = Some 0, contr = [\<lparr>nodene = p, rank = rk, le = l\<rparr>]\<rparr>"
  by (simp add: cnode_contribute_def)

lemma node_register_frame [simp]:
  "full_style (fst (node_register me lni rk l p bc)) = full_style me"
  "with_faces (fst (node_register me lni rk l p bc)) = with_faces me"
  "mpisize (fst (node_register me lni rk l p bc)) = mpisize me"
  "mpirank (fst (node_register me lni rk l p bc)) = mpirank me"
  "ghost (fst (node_register me lni rk l p bc)) = ghost me"
  "ghost_rank (fst (node_register me lni rk l p bc)) = ghost_rank me"
  "quadrants_offset (fst (node_register me lni rk l p bc)) = quadrants_offset me"
  "vnodes (fst (node_register me lni rk l p bc)) = vnodes me"
  "configuration (fst (node_register me lni rk l p bc)) = configuration me"
  "face_code (fst (node_register me lni rk l p bc)) = face_code me"
  "lenum (fst (node_register me lni rk l p bc)) = lenum me"
  "chilev (fst (node_register me lni rk l p bc)) = chilev me"
  "peers (fst (node_register me lni rk l p bc)) = peers me"
  "proc_peer (fst (node_register me lni rk l p bc)) = proc_peer me"
  "length (element_nodes (fst (node_register me lni rk l p bc))) = length (element_nodes me)"
  by (simp_all add: node_register_def Let_def)

lemma lreg_new_frame [simp]:
  "full_style (lreg_new l p bc me) = full_style me"
  "with_faces (lreg_new l p bc me) = with_faces me"
  "mpisize (lreg_new l p bc me) = mpisize me"
  "mpirank (lreg_new l p bc me) = mpirank me"
  "ghost (lreg_new l p bc me) = ghost me"
  "ghost_rank (lreg_new l p bc me) = ghost_rank me"
  "quadrants_offset (lreg_new l p bc me) = quadrants_offset me"
  "vnodes (lreg_new l p bc me) = vnodes me"
  "configuration (lreg_new l p bc me) = configuration me"
  "face_code (lreg_new l p bc me) = face_code me"
  "lenum (lreg_new l p bc me) = lenum me"
  "chilev (lreg_new l p bc me) = chilev me"
  "peers (lreg_new l p bc me) = peers me"
  "length (element_nodes (lreg_new l p bc me)) = length (element_nodes me)"
  by (simp_all add: lreg_new_def node_lregister_def)

lemma lreg_new_construct:
  "construct (lreg_new l p bc me) =
     construct me @ [\<lparr>runid = int (length (construct me)), bcon = bc, owner = Some 0,
                      contr = [\<lparr>nodene = p, rank = mpirank me, le = l\<rparr>]\<rparr>]"
  by (simp add: lreg_new_def node_lregister_def node_register_def Let_def cnode_contribute_fresh)

lemma lreg_new_element_nodes:
  "element_nodes (lreg_new l p bc me) =
     (element_nodes me)[nat (l * vnodes me + p) := int (length (construct me))]"
  by (simp add: lreg_new_def node_lregister_def node_register_def Let_def)

section \<open>The volume callback\<close>

lemma fold_cface_construct:
  "take (Suc n) (construct (fold (\<lambda>j. lreg_new l (f j) bc) js me)) = take (Suc n) (construct me)"
  if "n < length (construct me)"
  using that by (induction js arbitrary: me) (simp_all add: lreg_new_construct)

lemma fold_cface_nth:
  "n < length (construct me) \<Longrightarrow>
   construct (fold (\<lambda>j. lreg_new l (f j) bc) js me) ! n = construct me ! n"
  by (induction js arbitrary: me) (simp_all add: lreg_new_construct nth_append)

lemma fold_cface_length:
  "length (construct me) \<le> length (construct (fold (\<lambda>j. lreg_new l (f j) bc) js me))"
proof (induction js arbitrary: me)
  case Nil
  then show ?case by simp
next
  case (Cons j js)
  have "length (construct me) \<le> length (construct (lreg_new l (f j) bc me))"
    by (simp add: lreg_new_construct)
  also note Cons.IH
  finally show ?case by simp
qed

lemma fold_cface_slot:
  "\<forall>j \<in> set js. nat (l * vnodes me + f j) \<noteq> i \<Longrightarrow>
   element_nodes (fold (\<lambda>j. lreg_new l (f j) bc) js me) ! i = element_nodes me ! i"
  by (induction js arbitrary: me) (simp_all add: lreg_new_element_nodes)

lemma fold_cface_with_faces [simp]:
  "with_faces (fold (\<lambda>j. lreg_new l (f j) bc) js me) = with_faces me"
  "mpirank (fold (\<lambda>j. lreg_new l (f j) bc) js me) = mpirank me"
  "vnodes (fold (\<lambda>j. lreg_new l (f j) bc) js me) = vnodes me"
  by (induction js arbitrary: me) simp_all

text \<open>
  One call of the volume callback.  It takes the element number \<open>lenum\<close>.  If the
  element is full style (\<open>full_style\<close> is set or the level is 0), the callback creates a
  corner node for position 4; if it is half style and \<open>with_faces\<close> is set, it creates a
  face node for position 4.  In both cases the node is new, its only contributor is the
  local process at (element, 4), and the centre slot of the element holds its number.  If
  the element is half style and \<open>with_faces\<close> is not set, the callback registers nothing.
\<close>

lemma iter_volume1_emits:
  assumes "0 \<le> lenum me" and "0 \<le> vnodes me"
    and "nat (lenum me * vnodes me + 4) < length (element_nodes me)"
  shows "(let me' = iter_volume1 vi me;
              k = length (construct me);
              center = \<lambda>bc. element_nodes me' ! nat (lenum me * vnodes me + 4) = int k \<and>
                 k < length (construct me') \<and>
                 construct me' ! k =
                   \<lparr>runid = int k, bcon = bc, owner = Some 0,
                    contr = [\<lparr>nodene = 4, rank = mpirank me, le = lenum me\<rparr>]\<rparr>
          in (full_style me \<or> vi_level vi = 0 \<longrightarrow> center P4EST_CONNECT_CORNER) \<and>
             (\<not> (full_style me \<or> vi_level vi = 0) \<and> with_faces me \<longrightarrow> center P4EST_CONNECT_FACE) \<and>
             (\<not> (full_style me \<or> vi_level vi = 0) \<and> \<not> with_faces me \<longrightarrow>
                construct me' = construct me \<and> element_nodes me' = element_nodes me))"
proof -
  have slots: "\<forall>j \<in> set [0 ..< 4]. nat (lenum me * vnodes me + n_cface ! j) \<noteq>
                 nat (lenum me * vnodes me + 4)"
  proof
    fix j :: nat
    assume "j \<in> set [0 ..< 4]"
    then have "j = 0 \<or> j = 1 \<or> j = 2 \<or> j = 3" by auto
    then have "4 < n_cface ! j" by (auto simp: n_cface_def)
    moreover have "0 \<le> lenum me * vnodes me" using assms(1,2) by simp
    ultimately show "nat (lenum me * vnodes me + n_cface ! j) \<noteq> nat (lenum me * vnodes me + 4)"
      by linarith
  qed
  show ?thesis
    using assms(3) slots
    by (auto simp: iter_volume1_def Let_def n_center_def lreg_new_construct
        lreg_new_element_nodes fold_cface_nth fold_cface_slot
        intro: less_le_trans [OF _ fold_cface_length])
qed



section \<open>The traversal reads the static members only\<close>

lemma static_fields:
  assumes "static_part a = static_part b"
  shows "full_style a = full_style b" "with_faces a = with_faces b" "mpisize a = mpisize b"
    "mpirank a = mpirank b" "ghost a = ghost b" "ghost_rank a = ghost_rank b"
    "quadrants_offset a = quadrants_offset b" "vnodes a = vnodes b"
    "length (element_nodes a) = length (element_nodes b)"
    "num_local_elements a = num_local_elements b" "peers a = peers b" "proc_peer a = proc_peer b"
    "ownsort a = ownsort b" "num_owned a = num_owned b" "sharers a = sharers b"
    "num_shared a = num_shared b" "num_owned_shared a = num_owned_shared b"
    "emptypeers a = emptypeers b"
  using assms by (simp_all add: static_part_def)

lemma tree_quad_to_le_static:
  "static_part a = static_part b \<Longrightarrow> tree_quad_to_le a t q = tree_quad_to_le b t q"
  by (simp add: tree_quad_to_le_def static_part_def)

lemma static_part_update [simp]:
  "static_part (m\<lparr>face_code := fc\<rparr>) = static_part m"
  "static_part (m\<lparr>configuration := cf\<rparr>) = static_part m"
  "static_part (m\<lparr>lenum := n\<rparr>) = static_part m"
  "static_part (m\<lparr>chilev := cl\<rparr>) = static_part m"
  "static_part (m\<lparr>construct := cs\<rparr>) = static_part m"
  "static_part (m\<lparr>slots_fresh := sf\<rparr>) = static_part m"
  by (simp_all add: static_part_def)

lemma node_register_static [simp]:
  "static_part (fst (node_register me lni rk l p bc)) = static_part me"
  by (simp add: static_part_def node_register_def Let_def)

lemma node_lregister_static [simp]:
  "static_part (fst (node_lregister me lni l p bc)) = static_part me"
  by (simp add: node_lregister_def)

lemma node_gregister_static [simp]:
  "static_part (fst (node_gregister me lni g p bc)) = static_part me"
  by (simp add: node_gregister_def split: option.splits)

lemma lreg_new_static [simp]: "static_part (lreg_new l p bc me) = static_part me"
  by (simp add: lreg_new_def)

lemma node_lfacetocorner_static [simp]: "static_part (node_lfacetocorner me l p) = static_part me"
  by (simp add: static_part_def node_lfacetocorner_def Let_def)

lemma fold_static:
  "(\<And>x m. static_part (f x m) = static_part m) \<Longrightarrow> static_part (fold f xs me) = static_part me"
  by (induction xs arbitrary: me) simp_all

lemma fold_fst_static:
  "(\<And>x st. static_part (fst (f x st)) = static_part (fst st)) \<Longrightarrow>
   static_part (fst (fold f xs st)) = static_part (fst st)"
  by (induction xs arbitrary: st) simp_all

lemma lreg_lni_static [simp]: "static_part (fst (lreg_lni l p bc st)) = static_part (fst st)"
  by (simp add: lreg_lni_def split_beta)

lemma lreg_lnh_static [simp]: "static_part (fst (lreg_lnh k l p bc st)) = static_part (fst st)"
  by (simp add: lreg_lnh_def split_beta)

lemma greg_lni_static [simp]: "static_part (fst (greg_lni g p bc st)) = static_part (fst st)"
  by (simp add: greg_lni_def split_beta)

lemma greg_lnh_static [simp]: "static_part (fst (greg_lnh k g p bc st)) = static_part (fst st)"
  by (simp add: greg_lnh_def split_beta)

lemma promote_half_static [simp]: "static_part (promote_half l me) = static_part me"
  by (simp add: promote_half_def fold_static)

lemma split_config_static [simp]: "static_part (split_config l f me) = static_part me"
  by (simp add: split_config_def static_part_def Let_def)

lemma face_full_side_static [simp]:
  "static_part (fst (face_full_side swapi fs st)) = static_part (fst st)"
  by (simp add: face_full_side_def Let_def split_beta fold_fst_static)

lemma face_hanging_half_static [simp]:
  "static_part (fst (face_hanging_half swapi fs j st)) = static_part (fst st)"
  by (simp add: face_hanging_half_def Let_def split_beta)

lemma face_side_step_static [simp]:
  "static_part (fst (face_side_step fi fss i st)) = static_part (fst st)"
  by (simp add: face_side_step_def Let_def fold_fst_static)

lemma face_conforming_side_static [simp]:
  "static_part (fst (face_conforming_side fs st)) = static_part (fst st)"
  by (simp add: face_conforming_side_def split_beta)

lemma iter_face1_static [simp]: "static_part (iter_face1 fi me) = static_part me"
  by (simp add: iter_face1_def fold_fst_static split: list.splits del: fold_simps)

lemma corner_side_step_static [simp]:
  "static_part (fst (corner_side_step cs st)) = static_part (fst st)"
  by (simp add: corner_side_step_def split_beta)

lemma iter_corner1_static [simp]: "static_part (iter_corner1 ci me) = static_part me"
  by (simp add: iter_corner1_def fold_fst_static)

lemma iter_volume1_static [simp]: "static_part (iter_volume1 vi me) = static_part me"
  by (simp add: iter_volume1_def Let_def fold_static)

lemma iter_dispatch_static [simp]: "static_part (iter_dispatch ev me) = static_part me"
  by (cases ev) simp_all

lemma p4est_iterate_static [simp]: "static_part (p4est_iterate evs me) = static_part me"
  by (simp add: p4est_iterate_def fold_static)

section \<open>The configuration codes\<close>

lemma fold_keeps:
  "(\<And>x m. g (f x m) = g m) \<Longrightarrow> g (fold f xs me) = g me"
  by (induction xs arbitrary: me) simp_all

lemma fold_fst_keeps:
  "(\<And>x st. g (fst (f x st)) = g (fst st)) \<Longrightarrow> g (fst (fold f xs st)) = g (fst st)"
  by (induction xs arbitrary: st) simp_all

lemma node_gregister_configuration [simp]:
  "configuration (fst (node_gregister me lni g p bc)) = configuration me"
  by (simp add: node_gregister_def split: option.splits)

lemma node_lregister_configuration [simp]:
  "configuration (fst (node_lregister me lni l p bc)) = configuration me"
  by (simp add: node_lregister_def)

lemma reg_configuration [simp]:
  "configuration (fst (lreg_lni l p bc st)) = configuration (fst st)"
  "configuration (fst (lreg_lnh k l p bc st)) = configuration (fst st)"
  "configuration (fst (greg_lni g p bc st)) = configuration (fst st)"
  "configuration (fst (greg_lnh k g p bc st)) = configuration (fst st)"
  by (simp_all add: lreg_lni_def lreg_lnh_def greg_lni_def greg_lnh_def split_beta)

lemma promote_half_configuration [simp]:
  "configuration (promote_half l me) = configuration me"
  by (simp add: promote_half_def node_lfacetocorner_def Let_def fold_keeps)

lemma split_config_configuration:
  "configuration (split_config l f me) =
     (configuration me)[nat l := (configuration me ! nat l AND NOT (push_bit 4 1 OR push_bit 5 1))
                                  OR push_bit f 1]"
  by (cases "nat l < length (configuration me)")
    (simp_all add: split_config_def Let_def list_update_beyond not_less)

lemma face_full_side_configuration:
  "configuration (fst (face_full_side swapi fs st)) =
     (if fu_is_ghost fs then configuration (fst st)
      else (let l = tree_quad_to_le (fst st) (fs_treeid fs) (fu_quadid fs)
            in (configuration (fst st))
                 [nat l := (configuration (fst st) ! nat l AND NOT (push_bit 4 1 OR push_bit 5 1))
                           OR push_bit (fs_face fs) 1]))"
  by (simp add: face_full_side_def Let_def split_beta fold_fst_keeps split_config_configuration)

lemma face_hanging_half_configuration [simp]:
  "configuration (fst (face_hanging_half swapi fs j st)) = configuration (fst st)"
  by (simp add: face_hanging_half_def Let_def split_beta)

lemma small_codes: "c \<le> (16 :: 8 word) \<Longrightarrow> c \<in> set (map of_nat [0 ..< 17])"
proof -
  assume "c \<le> 16"
  then have "unat c < 17" by (simp add: word_le_nat_alt)
  then have "of_nat (unat c) \<in> (of_nat :: nat \<Rightarrow> 8 word) ` set [0 ..< 17]" by (intro imageI) simp
  then show ?thesis by simp
qed

lemma split_code_small:
  assumes "c \<le> 16 \<or> c = (32 :: 8 word)" and "f < 4"
  shows "(c AND NOT (push_bit 4 1 OR push_bit 5 1)) OR push_bit f 1 \<le> 16"
proof -
  have f: "f \<in> set [0 ..< 4]" using assms(2) by simp
  have c: "c \<in> set (32 # map of_nat [0 ..< 17])" using assms(1) small_codes by auto
  have "\<forall>c \<in> set (32 # map of_nat [0 ..< 17]). \<forall>f \<in> set [0 ..< 4].
          (c AND NOT (push_bit 4 1 OR push_bit 5 1)) OR push_bit f 1 \<le> (16 :: 8 word)"
    by code_simp
  then show ?thesis using f c by blast
qed

lemma split_code_bits:
  assumes "f < 4"
  shows "bit ((c AND NOT (push_bit 4 1 OR push_bit 5 1)) OR push_bit f 1 :: 8 word) f"
    and "\<not> bit ((c AND NOT (push_bit 4 1 OR push_bit 5 1)) OR push_bit f 1 :: 8 word) 4"
    and "\<not> bit ((c AND NOT (push_bit 4 1 OR push_bit 5 1)) OR push_bit f 1 :: 8 word) 5"
  using assms by (auto simp: bit_simps)


lemma valid_update:
  "list_all valid_config xs \<Longrightarrow> valid_config v \<Longrightarrow> list_all valid_config (xs[i := v])"
  by (auto simp: list_all_iff dest!: set_update_subset_insert [THEN subsetD])

lemma fold_inv:
  "(\<And>x m. x \<in> set xs \<Longrightarrow> P m \<Longrightarrow> P (f x m)) \<Longrightarrow> P me \<Longrightarrow> P (fold f xs me)"
  by (induction xs arbitrary: me) simp_all

lemma iter_volume1_valid:
  "list_all valid_config (configuration me) \<Longrightarrow>
   list_all valid_config (configuration (iter_volume1 vi me))"
  by (simp add: iter_volume1_def Let_def fold_keeps valid_update valid_config_def)

lemma face_full_side_valid:
  assumes "list_all valid_config (configuration (fst st))" and "fs_face fs < 4"
  shows "list_all valid_config (configuration (fst (face_full_side swapi fs st)))"
proof (cases "fu_is_ghost fs \<or> length (configuration (fst st)) \<le>
    nat (tree_quad_to_le (fst st) (fs_treeid fs) (fu_quadid fs))")
  case True
  then show ?thesis using assms(1)
    by (auto simp: face_full_side_configuration Let_def list_update_beyond)
next
  case False
  let ?l = "nat (tree_quad_to_le (fst st) (fs_treeid fs) (fu_quadid fs))"
  from False have "?l < length (configuration (fst st))" by simp
  then have "valid_config (configuration (fst st) ! ?l)"
    using assms(1) by (simp add: list_all_length)
  then have "valid_config ((configuration (fst st) ! ?l AND NOT (push_bit 4 1 OR push_bit 5 1))
                OR push_bit (fs_face fs) 1)"
    using split_code_small [OF _ assms(2)] by (simp add: valid_config_def)
  then show ?thesis using False assms(1)
    by (simp add: face_full_side_configuration Let_def valid_update)
qed

lemma face_side_step_valid:
  assumes "list_all valid_config (configuration (fst st))" and "fs_face (fss ! i) < 4"
  shows "list_all valid_config (configuration (fst (face_side_step fi fss i st)))"
  using assms by (simp add: face_side_step_def Let_def face_full_side_valid fold_fst_keeps)

lemma face_conforming_side_configuration [simp]:
  "configuration (fst (face_conforming_side fs st)) = configuration (fst st)"
  by (simp add: face_conforming_side_def split_beta)

lemma iter_face1_valid:
  assumes "list_all valid_config (configuration me)" and "faces_ok (Face_event fi)"
  shows "list_all valid_config (configuration (iter_face1 fi me))"
proof (cases "fi_sides fi")
  case Nil
  then show ?thesis using assms(1) by (simp add: iter_face1_def)
next
  case (Cons fs0 rest)
  show ?thesis
  proof (cases rest)
    case Nil
    then show ?thesis using assms(1) Cons by (simp add: iter_face1_def)
  next
    case (Cons fs1 rest')
    from assms(2) \<open>fi_sides fi = fs0 # rest\<close> Cons
    have f: "fs_face ([fs0, fs1] ! i) < 4" if "i \<in> set [0 ..< 2]" for i
      using that by (cases i) auto
    have "list_all valid_config
            (configuration (fst (fold (face_side_step fi [fs0, fs1]) [0 ..< 2] (me, - 1, [- 1, - 1]))))"
      by (rule fold_inv [where P = "\<lambda>st. list_all valid_config (configuration (fst st))"])
        (simp_all add: face_side_step_valid f assms(1))
    then show ?thesis using assms(1) Cons \<open>fi_sides fi = fs0 # rest\<close>
      by (simp add: iter_face1_def fold_fst_keeps del: fold_simps)
  qed
qed

lemma corner_side_step_configuration [simp]:
  "configuration (fst (corner_side_step cs st)) = configuration (fst st)"
  by (simp add: corner_side_step_def split_beta)

lemma iter_dispatch_valid:
  "list_all valid_config (configuration me) \<Longrightarrow> faces_ok ev \<Longrightarrow>
   list_all valid_config (configuration (iter_dispatch ev me))"
  by (cases ev) (simp_all add: iter_volume1_valid iter_face1_valid iter_corner1_def fold_fst_keeps)

lemma p4est_iterate_valid:
  "list_all valid_config (configuration me) \<Longrightarrow> list_all faces_ok evs \<Longrightarrow>
   list_all valid_config (configuration (p4est_iterate evs me))"
  unfolding p4est_iterate_def
proof (rule fold_inv [where P = "\<lambda>m :: tnodes_meta. list_all valid_config (configuration m)"])
  fix ev and m :: tnodes_meta
  assume "list_all faces_ok evs" "ev \<in> set evs" "list_all valid_config (configuration m)"
  then have "faces_ok ev" by (simp add: list_all_iff)
  with \<open>list_all valid_config (configuration m)\<close>
  show "list_all valid_config (configuration (iter_dispatch ev m))"
    by (rule iter_dispatch_valid)
qed


section \<open>What the phases after the traversal leave unchanged\<close>

lemma kept_fields:
  assumes "kept_part a = kept_part b"
  shows "configuration a = configuration b" "face_code a = face_code b"
    "full_style a = full_style b" "with_faces a = with_faces b" "mpisize a = mpisize b"
    "mpirank a = mpirank b" "vnodes a = vnodes b" "num_local_elements a = num_local_elements b"
    "ghost a = ghost b"
    "map (\<lambda>cn. (owner cn, contr cn)) (construct a) = map (\<lambda>cn. (owner cn, contr cn)) (construct b)"
  using assms by (simp_all add: kept_part_def)

lemma kept_part_update [simp]:
  "kept_part (m\<lparr>peers := x2\<rparr>) = kept_part m"
  "kept_part (m\<lparr>proc_peer := x3\<rparr>) = kept_part m"
  "kept_part (m\<lparr>ownsort := x4\<rparr>) = kept_part m"
  "kept_part (m\<lparr>num_owned := x5\<rparr>) = kept_part m"
  "kept_part (m\<lparr>num_owned_shared := x6\<rparr>) = kept_part m"
  "kept_part (m\<lparr>num_shared := x7\<rparr>) = kept_part m"
  "kept_part (m\<lparr>num_all_shared := x8\<rparr>) = kept_part m"
  "kept_part (m\<lparr>emptypeers := x9\<rparr>) = kept_part m"
  "kept_part (m\<lparr>owned_count := y1\<rparr>) = kept_part m"
  "kept_part (m\<lparr>num_local_nodes := y2\<rparr>) = kept_part m"
  "kept_part (m\<lparr>nonlocal_nodes := y3\<rparr>) = kept_part m"
  "kept_part (m\<lparr>global_owned_count := y4\<rparr>) = kept_part m"
  "kept_part (m\<lparr>goffset := y5\<rparr>) = kept_part m"
  "kept_part (m\<lparr>global_offset := y6\<rparr>) = kept_part m"
  "kept_part (m\<lparr>sortp := y7\<rparr>) = kept_part m"
  "kept_part (m\<lparr>sharers := y8\<rparr>) = kept_part m"
  "kept_part (m\<lparr>locsharer := y9\<rparr>) = kept_part m"
  "kept_part (m\<lparr>element_nodes := z1\<rparr>) = kept_part m"
  by (simp_all add: kept_part_def)

lemma set_runid_kept [simp]: "kept_part (set_runid zz r me) = kept_part me"
proof -
  have "map (\<lambda>cn. (owner cn, contr cn)) ((construct me)[zz := (construct me ! zz)\<lparr>runid := r\<rparr>]) =
          map (\<lambda>cn. (owner cn, contr cn)) (construct me)"
  proof (cases "zz < length (construct me)")
    case True
    then show ?thesis by (simp add: map_update list_update_same_conv)
  next
    case False
    then show ?thesis by (simp add: list_update_beyond)
  qed
  then show ?thesis by (simp add: set_runid_def kept_part_def)
qed

lemma peer_access_kept [simp]: "kept_part (fst (peer_access me q)) = kept_part me"
  by (simp add: peer_access_def Let_def)

lemma post_reply_kept [simp]: "kept_part (post_reply rid c me) = kept_part me"
  by (simp add: post_reply_def split_beta)

lemma count_passive_kept [simp]: "kept_part (count_passive ow c me) = kept_part me"
  by (simp add: count_passive_def split_beta)

lemma owned_query_reply_node_kept [simp]:
  "kept_part (owned_query_reply_node zz me) = kept_part me"
  by (simp add: owned_query_reply_node_def Let_def split_beta fold_keeps)

lemma owned_query_reply_kept [simp]: "kept_part (owned_query_reply me) = kept_part me"
  by (simp add: owned_query_reply_def Let_def fold_keeps)

lemma post_query_reply_kept [simp]: "kept_part (post_query_reply me) = kept_part me"
  by (simp add: post_query_reply_def post_query_reply_peer_def Let_def fold_keeps)

lemma sort_allgather_kept [simp]: "kept_part (sort_allgather gathered me) = kept_part me"
  by (simp add: sort_allgather_def Let_def fold_keeps)

lemma push_peer_sharer_kept [simp]: "kept_part (push_peer_sharer pi me) = kept_part me"
  by (simp add: push_peer_sharer_def push_sharer_def)

lemma accumulate_peer_kept [simp]: "kept_part (fst (accumulate_peer pi st)) = kept_part (fst st)"
  by (simp add: accumulate_peer_def split_beta)

lemma sort_peers_kept [simp]: "kept_part (sort_peers me) = kept_part me"
proof (cases "ghost me = None \<or> peers me = []")
  case True
  then show ?thesis by (simp add: sort_peers_def)
next
  case False
  have p: "kept_part (fst (push_sharer r m)) = kept_part m" for r m
    by (simp add: push_sharer_def)
  show ?thesis using False
    unfolding sort_peers_def Let_def
    by (simp add: split_beta p fold_keeps [where g = kept_part]
        fold_fst_keeps [where g = kept_part])
qed

lemma store_reply_kept [simp]: "kept_part (store_reply j me) = kept_part me"
  unfolding store_reply_def by (rule fold_keeps) simp

lemma number_shared_kept [simp]: "kept_part (number_shared j me) = kept_part me"
  unfolding number_shared_def Let_def by (rule fold_keeps) simp

lemma process_reply_kept [simp]: "kept_part (process_reply j buf me) = kept_part me"
  unfolding process_reply_def Let_def by simp

lemma wait_complete_kept:
  "wait_complete ev st = Some st' \<Longrightarrow> kept_part (fst st') = kept_part (fst st)"
proof -
  assume a: "wait_complete ev st = Some st'"
  obtain j buf where ev: "ev = (j, buf)" by (cases ev)
  obtain me n where st: "st = (me, n)" by (cases st)
  have k: "kept_part (me\<lparr>peers := x\<rparr>) = kept_part me" for x by simp
  from a show ?thesis
    unfolding wait_complete_def ev st Let_def prod.case
    by (simp only: k fst_conv process_reply_kept split: if_splits) auto
qed

lemma wait_batch_kept:
  "wait_batch evs st = Some st' \<Longrightarrow> kept_part (fst st') = kept_part (fst st)"
proof (induction evs arbitrary: st)
  case Nil
  then show ?case by simp
next
  case (Cons ev evs)
  then show ?case
    by (auto split: option.splits dest!: wait_complete_kept)
qed

lemma wait_loop_kept:
  "wait_loop bs st = Some me' \<Longrightarrow> kept_part me' = kept_part (fst st)"
proof (induction bs st rule: wait_loop.induct)
  case (1 me nwtotal)
  then show ?case by (simp split: if_splits)
next
  case (2 b bs me nwtotal)
  then show ?case
    by (auto split: if_splits option.splits dest!: wait_batch_kept)
qed

lemma wait_query_reply_kept:
  "wait_query_reply batches me = Some me' \<Longrightarrow> kept_part me' = kept_part me"
  by (auto simp: wait_query_reply_def split: if_splits dest!: wait_loop_kept)

lemma set_element_node_kept [simp]: "kept_part (set_element_node l p me) = kept_part me"
  by (simp add: set_element_node_def Let_def)

lemma assign_element_kept [simp]: "kept_part (assign_element l me) = kept_part me"
  unfolding assign_element_def Let_def
  by (simp add: fold_keeps [where g = kept_part])

lemma assign_element_nodes_kept [simp]: "kept_part (assign_element_nodes me) = kept_part me"
  unfolding assign_element_nodes_def
  by (rule fold_keeps) (rule assign_element_kept)

lemma push_shared_kept [simp]: "kept_part (push_shared si v me) = kept_part me"
  by (simp add: push_shared_def)

lemma share_remote_peer_kept [simp]:
  "kept_part (fst (share_remote_peer pi st)) = kept_part (fst st)"
  by (simp add: share_remote_peer_def share_remote_def Let_def split_beta fold_fst_keeps)

lemma sharer_counts_kept [simp]: "kept_part (fst (sharer_counts pi st)) = kept_part (fst st)"
  by (cases st) (simp add: sharer_counts_def Let_def)

lemma share_owned_kept [simp]: "kept_part (share_owned lcl me) = kept_part me"
  by (simp add: share_owned_def Let_def fold_keeps)

lemma populate_sharers_kept [simp]: "kept_part (populate_sharers me) = kept_part me"
proof (cases "ghost me = None \<or> peers me = []")
  case True
  then show ?thesis by (simp add: populate_sharers_def)
next
  case False
  let ?me1 = "fold share_owned [0 ..< length (ownsort me)] me"
  have 1: "kept_part ?me1 = kept_part me"
    by (rule fold_keeps) (rule share_owned_kept)
  show ?thesis
    using False
    by (simp add: populate_sharers_def Let_def split_beta 1
          fold_fst_keeps [where g = kept_part])
qed

lemma p4est_tnodes_new_kept:
  assumes "p4est_tnodes_new p4est gh env fstyle wfaces = Some me"
  shows "kept_part me =
           kept_part (p4est_iterate (f_events p4est) (tnodes_meta_init p4est gh fstyle wfaces))"
proof -
  let ?me1 = "p4est_iterate (f_events p4est) (tnodes_meta_init p4est gh fstyle wfaces)"
  let ?me5 = "sort_peers (sort_allgather (allgathered env)
                (post_query_reply (owned_query_reply ?me1)))"
  from assms obtain me6 where w: "wait_query_reply (waitsome env) ?me5 = Some me6"
    and me: "me = populate_sharers (assign_element_nodes me6)"
    unfolding p4est_tnodes_new_def Let_def by (auto split: option.splits)
  have "kept_part me6 = kept_part ?me5" using w by (rule wait_query_reply_kept)
  then show ?thesis unfolding me by simp
qed

section \<open>The configuration after the construction\<close>

lemma iter_dispatch_configuration_length:
  "length (configuration (iter_dispatch ev me)) = length (configuration me)"
proof (cases ev)
  case (Volume_event vi)
  then show ?thesis by (simp add: iter_volume1_def Let_def fold_keeps)
next
  case (Face_event fi)
  have step: "length (configuration (fst (face_side_step fi fss i st))) =
                length (configuration (fst st))" for fss i st
    by (simp add: face_side_step_def Let_def face_full_side_configuration fold_fst_keeps)
  have steps: "length (configuration (fst (fold (face_side_step fi fss) js st))) =
                length (configuration (fst st))" for fss js st
    by (rule fold_fst_keeps [where g = "\<lambda>m. length (configuration m)"]) (rule step)
  show ?thesis unfolding Face_event
    by (simp add: iter_face1_def fold_fst_keeps steps split: list.splits del: fold_simps)
next
  case (Corner_event ci)
  then show ?thesis by (simp add: iter_corner1_def fold_fst_keeps)
qed

lemma p4est_iterate_configuration_length:
  "length (configuration (p4est_iterate evs me)) = length (configuration me)"
  unfolding p4est_iterate_def
  by (rule fold_keeps [where g = "\<lambda>m. length (configuration m)"])
    (rule iter_dispatch_configuration_length)

lemma face_hanging_fold_configuration:
  "configuration (fst (fold (face_hanging_half swapi fs) js st)) = configuration (fst st)"
  by (simp add: fold_fst_keeps)

lemma iter_face1_hanging_configuration:
  assumes "fi_sides fi = [Side_full t f False q, hs] \<or> fi_sides fi = [hs, Side_full t f False q]"
    and "is_hanging hs"
  shows "configuration (iter_face1 fi m) =
           (configuration m)
             [nat (tree_quad_to_le m t q) :=
                (configuration m ! nat (tree_quad_to_le m t q) AND NOT (push_bit 4 1 OR push_bit 5 1))
                OR push_bit f 1]"
proof -
  have two: "[0 ..< 2] = [0, Suc 0]" by (simp add: upt_rec)
  have tq: "tree_quad_to_le (fst (face_hanging_half swapi hs j st)) t q =
              tree_quad_to_le (fst st) t q" for swapi j st
    by (rule tree_quad_to_le_static) simp
  from assms(1) show ?thesis
  proof
    assume "fi_sides fi = [Side_full t f False q, hs]"
    then show ?thesis using assms(2)
      by (simp add: iter_face1_def two face_side_step_def Let_def face_full_side_configuration
          face_hanging_fold_configuration del: fold_simps)
  next
    assume "fi_sides fi = [hs, Side_full t f False q]"
    then show ?thesis using assms(2)
      by (simp add: iter_face1_def two face_side_step_def Let_def face_full_side_configuration
          face_hanging_fold_configuration tq del: fold_simps)
  qed
qed

text \<open>The rows of the tables that \<open>assign_element\<close> reads.\<close>

lemma fold_take_nth:
  "n \<le> length xs \<Longrightarrow> fold (\<lambda>i. f (xs ! i)) [0 ..< n] m = fold f (take n xs) m"
proof -
  assume n: "n \<le> length xs"
  have "take n xs = map ((!) xs) [0 ..< n]"
    using n by (metis add_0 map_nth take_map take_upt)
  then show ?thesis by (simp add: fold_map comp_def)
qed

lemma config_rows_fit:
  assumes "row < 18"
  shows "nat (p4est_tnodes_config_count ! row ! 0) \<le> length (p4est_tnodes_config_corners ! row)"
    and "nat (p4est_tnodes_config_count ! row ! 1) \<le> length (p4est_tnodes_config_faces ! row)"
proof -
  have "list_all (\<lambda>row.
          nat (p4est_tnodes_config_count ! row ! 0) \<le> length (p4est_tnodes_config_corners ! row) \<and>
          nat (p4est_tnodes_config_count ! row ! 1) \<le> length (p4est_tnodes_config_faces ! row))
        [0 ..< 18]"
    by code_simp
  with assms show
    "nat (p4est_tnodes_config_count ! row ! 0) \<le> length (p4est_tnodes_config_corners ! row)"
    "nat (p4est_tnodes_config_count ! row ! 1) \<le> length (p4est_tnodes_config_faces ! row)"
    by (simp_all add: list_all_iff)
qed

lemma assign_element_row:
  assumes "config_index (configuration m ! nat l) = row" and "row < 18"
  shows "assign_element l m =
     fold (set_element_node l)
       (take (nat (p4est_tnodes_config_count ! row ! 0)) (p4est_tnodes_config_corners ! row) @
        (if with_faces m
         then take (nat (p4est_tnodes_config_count ! row ! 1)) (p4est_tnodes_config_faces ! row)
         else [])) m"
  using assms(1) config_rows_fit [OF assms(2)]
  by (simp add: assign_element_def Let_def fold_take_nth)


section \<open>Concrete runs\<close>

lemma unit_run_returns:
  "p4est_tnodes_new unit_forest None unit_env True False = Some unit_result"
proof -
  have "(case p4est_tnodes_new unit_forest None unit_env True False of
           None \<Rightarrow> False | Some me \<Rightarrow> True)"
    by code_simp
  then show ?thesis by (simp add: unit_result_def split: option.splits)
qed


text \<open>
  C8.  On a single process with a single leaf of level 0, with \<open>full_style\<close> set and
  \<open>with_faces\<close> not set, the constructor returns, and the result has
  \<open>owned_count = 5\<close>, no shared nodes (\<open>num_shared = 0\<close>, five local nodes, no
  nonlocal entries) and \<open>configuration[0] = 32\<close>.
\<close>

theorem single_element_full_style:
  "map_option (\<lambda>me. (owned_count me, num_shared me, num_local_nodes me, nonlocal_nodes me,
       configuration me ! 0))
     (p4est_tnodes_new unit_forest None unit_env True False) = Some (5, 0, 5, [], 32)"
  by code_simp

section \<open>Finalization on concrete runs\<close>

text \<open>
  C1 does not hold of the code.  On the single leaf of level 0 (full style, no faces) the
  nodes are created in the order centre, corner 0, 1, 2, 3 and are numbered by their
  position, so the final numbers of the nodes 0 to 4 are 4, 0, 1, 2, 3 and the element
  slots should read 0, 1, 2, 3, 4.  \<open>set_element_node\<close> writes every final number to
  \<open>element_nodes[le]\<close>: slot 0 ends up with the last number written and the slots 1 to 4
  keep the node numbers of the traversal.
\<close>

theorem assign_element_nodes_single_leaf:
  "map_option (\<lambda>me. (map runid (construct me), element_nodes me, num_local_nodes me))
     (p4est_tnodes_new unit_forest None unit_env True False) =
   Some ([4, 0, 1, 2, 3], [4, 2, 3, 4, 0, - 1, - 1, - 1, - 1], 5)"
  by code_simp

text \<open>
  C2 does not hold of the code.  On process 1 of the two-leaf strip the two corners on the
  common face are owned by process 0 and get the local numbers 3 and 4; their contributors
  are process 0 and process 1.  The sharer record of process 0 stays empty: the loop over
  the contributors of a shared node only moves the pointer \<open>sharer\<close>, and the one push
  after it goes to the record of the last contributor, here the local one.
\<close>

theorem populate_sharers_two_leaves:
  "map_option (\<lambda>me. (owned_count me, num_local_nodes me, nonlocal_nodes me,
       map (\<lambda>cn. (runid cn, map rank (contr cn))) (construct me),
       map (\<lambda>s. (srank s, shared_nodes s)) (sharers me)))
     (p4est_tnodes_new strip_forest (Some strip_ghost) strip_env True False) =
   Some (3, 5, [1, 3],
         [(2, [1]), (3, [0, 1]), (4, [0, 1]), (0, [1]), (1, [1])],
         [(0, []), (1, [3, 4])])"
  by code_simp

section \<open>Always-owned positions stay with the local process\<close>

lemma always_owned_iff:
  "always_owned p \<longleftrightarrow> p \<in> {4, 9, 10, 11, 12, 14, 17, 20, 22}"
proof
  assume "always_owned p"
  then have r: "0 \<le> p" "p < 25" and v: "alwaysowned ! nat p = 1"
    by (simp_all add: always_owned_def)
  from r have "nat p \<in> set [0 ..< 25]" by auto
  then have "nat p \<in> set (filter (\<lambda>i. alwaysowned ! i = 1) [0 ..< 25])" using v by simp
  also have "filter (\<lambda>i. alwaysowned ! i = 1) [0 ..< 25] = [4, 9, 10, 11, 12, 14, 17, 20, 22]"
    by code_simp
  finally have "nat p \<in> {4, 9, 10, 11, 12, 14, 17, 20, 22}" by simp
  then show "p \<in> {4, 9, 10, 11, 12, 14, 17, 20, 22}" using r by auto
next
  assume "p \<in> {4, 9, 10, 11, 12, 14, 17, 20, 22}"
  then show "always_owned p" by (auto simp: always_owned_def alwaysowned_def)
qed

lemma table_positions_plain:
  "f < 4 \<Longrightarrow> 9 \<le> vn \<Longrightarrow> shareable vn (n_mface ! f)"
  "f < 4 \<Longrightarrow> j < 2 \<Longrightarrow> 25 \<le> vn \<Longrightarrow> shareable vn (n_hface ! f ! j)"
  "f < 4 \<Longrightarrow> j < 2 \<Longrightarrow> 9 \<le> vn \<Longrightarrow> shareable vn (n_ccorn ! (p4est_face_corners ! f ! j))"
  "c < 4 \<Longrightarrow> 9 \<le> vn \<Longrightarrow> shareable vn (n_ccorn ! c)"
proof -
  have f4: "f < 4 \<Longrightarrow> f = 0 \<or> f = 1 \<or> f = 2 \<or> f = 3" for f :: nat by auto
  have j2: "j < 2 \<Longrightarrow> j = 0 \<or> j = 1" for j :: nat by auto
  show "f < 4 \<Longrightarrow> 9 \<le> vn \<Longrightarrow> shareable vn (n_mface ! f)"
    by (auto dest!: f4 simp: shareable_def always_owned_iff n_mface_def)
  show "f < 4 \<Longrightarrow> j < 2 \<Longrightarrow> 25 \<le> vn \<Longrightarrow> shareable vn (n_hface ! f ! j)"
    by (auto dest!: f4 j2 simp: shareable_def always_owned_iff n_hface_def)
  show "f < 4 \<Longrightarrow> j < 2 \<Longrightarrow> 9 \<le> vn \<Longrightarrow> shareable vn (n_ccorn ! (p4est_face_corners ! f ! j))"
    by (auto dest!: f4 j2 simp: shareable_def always_owned_iff n_ccorn_def p4est_face_corners_def)
  show "c < 4 \<Longrightarrow> 9 \<le> vn \<Longrightarrow> shareable vn (n_ccorn ! c)"
    by (auto dest!: f4 simp: shareable_def always_owned_iff n_ccorn_def)
qed

lemma plain_contribute:
  assumes "plain vn cn" and "shareable vn p"
  shows "plain vn (cnode_contribute cn rk l p)"
proof (cases "find_contr (contr cn) rk 0")
  case None
  then show ?thesis using assms
    by (simp add: cnode_contribute_def Let_def plain_def)
next
  case (Some z)
  have "list_all (\<lambda>c. shareable vn (nodene c)) ((contr cn)[z := (contr cn ! z)\<lparr>nodene := p, le := l\<rparr>])"
    using assms by (auto simp: plain_def list_all_iff dest!: set_update_subset_insert [THEN subsetD])
  then show ?thesis using Some assms
    by (simp add: cnode_contribute_def Let_def plain_def)
qed

lemma contribute_registry:
  assumes "owner_min cn" and "distinct (map rank (contr cn))"
  shows "owner_min (cnode_contribute cn rk l p)"
    and "distinct (map rank (contr (cnode_contribute cn rk l p)))"
    and "runid (cnode_contribute cn rk l p) = runid cn"
proof -
  let ?log = "map (\<lambda>c. (0 :: nat, rank c, le c, nodene c)) (contr cn)"
  have seen: "smallest_seen ?log 0 c" if "c \<in> set (contr cn)" for c
  proof -
    have "c' = c" if "c' \<in> set (contr cn)" "rank c' = rank c" for c'
      using that \<open>c \<in> set (contr cn)\<close> assms(2) by (auto simp: distinct_map dest: inj_onD)
    then show ?thesis using that by (auto simp: smallest_seen_def)
  qed
  have "cnode_ok ?log 0 cn"
    unfolding cnode_ok_def using assms seen by auto
  then have "cnode_ok (?log @ [(0, rk, l, p)]) 0 (cnode_contribute cn rk l p)"
    by (rule contribute_ok)
  then show "owner_min (cnode_contribute cn rk l p)"
    and "distinct (map rank (contr (cnode_contribute cn rk l p)))"
    by (simp_all add: cnode_ok_def)
  show "runid (cnode_contribute cn rk l p) = runid cn"
    by (simp add: cnode_contribute_def Let_def split: option.splits)
qed

lemma contribute_ranks:
  assumes "list_all (\<lambda>c. R (rank c)) (contr cn)" and "R rk"
  shows "list_all (\<lambda>c. R (rank c)) (contr (cnode_contribute cn rk l p))"
proof (cases "find_contr (contr cn) rk 0")
  case None
  then show ?thesis using assms by (simp add: cnode_contribute_def Let_def)
next
  case (Some z)
  from find_contr_Some [OF Some] have z: "z < length (contr cn)" by simp
  then have "R (rank (contr cn ! z))" using assms(1) by (simp add: list_all_length)
  then have "list_all (\<lambda>c. R (rank c)) ((contr cn)[z := (contr cn ! z)\<lparr>nodene := p, le := l\<rparr>])"
    using assms(1) by (auto simp: list_all_iff dest!: set_update_subset_insert [THEN subsetD])
  then show ?thesis using Some assms(1)
    by (simp add: cnode_contribute_def Let_def)
qed

lemma grows_refl [simp]: "grows a a"
  by (simp add: grows_def)

lemma grows_trans: "grows a b \<Longrightarrow> grows b c \<Longrightarrow> grows a c"
  by (auto simp: grows_def)

lemma grows_construct:
  assumes "mpirank b = mpirank a" and "vnodes b = vnodes a" and "with_faces b = with_faces a"
    and "proc_peer b = proc_peer a" and "ghost_rank b = ghost_rank a"
    and "construct b = construct a"
  shows "grows a b"
  using assms by (simp add: grows_def interior_inv_def lni_plain_def)

lemma grows_interior: "grows a b \<Longrightarrow> interior_inv n a \<Longrightarrow> interior_inv n b"
  by (simp add: grows_def)

lemma grows_lni: "grows a b \<Longrightarrow> lni_plain a x \<Longrightarrow> lni_plain b x"
  by (simp add: grows_def)

lemma node_register_new_grows:
  assumes "rk = - 1 \<or> shareable (vnodes me) p" and "rk = - 1 \<or> (0 \<le> rk \<and> rk < peer_slots me)"
  shows "grows me (fst (node_register me (- 1) rk l p bc))"
    and "shareable (vnodes me) p \<Longrightarrow>
         lni_plain (fst (node_register me (- 1) rk l p bc)) (snd (node_register me (- 1) rk l p bc))"
proof -
  let ?me' = "fst (node_register me (- 1) rk l p bc)"
  let ?cn = "\<lparr>runid = int (length (construct me)), bcon = bc, owner = Some 0,
              contr = [\<lparr>nodene = p, rank = (if rk = - 1 then mpirank me else rk), le = l\<rparr>]\<rparr>"
  have c: "construct ?me' = construct me @ [?cn]"
    by (simp add: node_register_new cnode_contribute_fresh)
  have ok: "node_inv (mpirank me) (peer_slots me) (vnodes me) (length (construct me)) ?cn"
    using assms by (auto simp: node_inv_def owner_min_def plain_def sole_local_def)
  show "grows me ?me'"
    unfolding grows_def interior_inv_def lni_plain_def using c ok
    by (auto simp: nth_append less_Suc_eq)
  show "lni_plain ?me' (snd (node_register me (- 1) rk l p bc))" if "shareable (vnodes me) p"
    using that c by (simp add: lni_plain_def node_register_new plain_def)
qed

lemma node_register_old_grows:
  assumes inv: "interior_inv n me" and lni: "lni_plain me lni" "lni \<noteq> - 1"
    and p: "shareable (vnodes me) p" and rk: "rk = - 1 \<or> (0 \<le> rk \<and> rk < peer_slots me)"
  shows "grows me (fst (node_register me lni rk l p bc))"
    and "lni_plain (fst (node_register me lni rk l p bc)) (snd (node_register me lni rk l p bc))"
proof -
  let ?me' = "fst (node_register me lni rk l p bc)"
  let ?r = "if rk = - 1 then mpirank me else rk"
  let ?k = "nat lni"
  let ?R = "\<lambda>x. x = mpirank me \<or> (0 \<le> x \<and> x < peer_slots me)"
  let ?cn = "cnode_contribute (construct me ! ?k) ?r l p"
  from lni have k: "0 \<le> lni" "?k < length (construct me)"
    and pl: "plain (vnodes me) (construct me ! ?k)"
    by (auto simp: lni_plain_def)
  have c: "construct ?me' = (construct me)[?k := ?cn]"
    using lni(2) by (simp add: node_register_old)
  have new: "plain (vnodes me) ?cn" using pl p by (rule plain_contribute)
  from inv k(2) have old: "node_inv (mpirank me) (peer_slots me) (vnodes me) ?k (construct me ! ?k)"
    by (simp add: interior_inv_def)
  have "?R ?r" using rk by auto
  with old have "list_all (\<lambda>c. ?R (rank c)) (contr ?cn)"
    by (intro contribute_ranks) (simp_all add: node_inv_def)
  with old have new': "node_inv (mpirank me) (peer_slots me) (vnodes me) ?k ?cn"
    using new contribute_registry [of "construct me ! ?k" ?r l p] by (simp add: node_inv_def)
  have i: "interior_inv n ?me'"
    unfolding interior_inv_def c
  proof (intro conjI allI impI)
    show "9 \<le> vnodes ?me'" "with_faces ?me' \<Longrightarrow> 25 \<le> vnodes ?me'"
      "length (ghost_rank ?me') = n"
      "list_all (\<lambda>r. 0 \<le> r \<and> r < peer_slots ?me') (ghost_rank ?me')"
      using inv by (simp_all add: interior_inv_def)
  next
    fix j
    assume "j < length ((construct me)[?k := ?cn])"
    then show "node_inv (mpirank ?me') (peer_slots ?me') (vnodes ?me') j ((construct me)[?k := ?cn] ! j)"
      using inv new' by (cases "j = ?k") (simp_all add: interior_inv_def)
  qed
  have m: "lni_plain ?me' x" if "lni_plain me x" for x
  proof (cases "x = - 1")
    case True
    then show ?thesis by (simp add: lni_plain_def)
  next
    case False
    with that have x: "0 \<le> x" "nat x < length (construct me)" "plain (vnodes me) (construct me ! nat x)"
      by (auto simp: lni_plain_def)
    show ?thesis
      using x new k unfolding lni_plain_def c
      by (cases "nat x = ?k") simp_all
  qed
  show "grows me ?me'" using i m inv by (auto simp: grows_def interior_inv_def)
  show "lni_plain ?me' (snd (node_register me lni rk l p bc))"
    using lni(2) k new unfolding lni_plain_def c by (simp add: node_register_old)
qed

lemma node_register_grows:
  assumes "interior_inv n me" and "lni_plain me lni" and "shareable (vnodes me) p"
    and "rk = - 1 \<or> (0 \<le> rk \<and> rk < peer_slots me)"
  shows "grows me (fst (node_register me lni rk l p bc))"
    and "lni_plain (fst (node_register me lni rk l p bc)) (snd (node_register me lni rk l p bc))"
  using assms node_register_new_grows [of rk me p l bc]
    node_register_old_grows [of n me lni p rk l bc]
  by (cases "lni = - 1"; simp)+

lemma xor_below_2: "j < 2 \<Longrightarrow> s < 2 \<Longrightarrow> j XOR s < (2 :: nat)"
proof -
  assume "j < 2" "s < 2"
  then have "(j = 0 \<or> j = 1) \<and> (s = 0 \<or> s = 1)" by auto
  then show ?thesis by auto
qed

lemma face_inv_grows:
  "face_inv n (me, lni, lnh) \<Longrightarrow> grows me me' \<Longrightarrow> face_inv n (me', lni, lnh)"
  by (auto simp: face_inv_def grows_def list_all_iff)

lemma face_inv_fields:
  assumes "face_inv n st"
  shows "9 \<le> vnodes (fst st)" "with_faces (fst st) \<Longrightarrow> 25 \<le> vnodes (fst st)"
  using assms by (auto simp: face_inv_def interior_inv_def split_beta)

lemma node_lregister_grows:
  assumes "interior_inv n me" and "lni_plain me lni" and "shareable (vnodes me) p"
  shows "grows me (fst (node_lregister me lni l p bc))"
    and "lni_plain (fst (node_lregister me lni l p bc)) (snd (node_lregister me lni l p bc))"
  using node_register_grows [OF assms, of "- 1"] by (simp_all add: node_lregister_def)

lemma node_gregister_grows:
  assumes "interior_inv n me" and "lni_plain me lni" and "shareable (vnodes me) p"
    and "ghostid_ok n g"
  shows "grows me (fst (node_gregister me lni g p bc))"
    and "lni_plain (fst (node_gregister me lni g p bc)) (snd (node_gregister me lni g p bc))"
proof -
  from assms(1,4) have "0 \<le> ghost_rank me ! nat g \<and> ghost_rank me ! nat g < peer_slots me"
    by (simp add: interior_inv_def ghostid_ok_def list_all_length)
  then have r: "ghost_rank me ! nat g = - 1 \<or>
      (0 \<le> ghost_rank me ! nat g \<and> ghost_rank me ! nat g < peer_slots me)" by simp
  note reg = node_register_grows [OF assms(1,2,3) r]
  show "grows me (fst (node_gregister me lni g p bc))"
    using reg(1) by (simp add: node_gregister_def split: option.splits)
  show "lni_plain (fst (node_gregister me lni g p bc)) (snd (node_gregister me lni g p bc))"
    using reg(2) assms(2) by (simp add: node_gregister_def split: option.splits)
qed

lemma face_inv_lni:
  assumes "interior_inv n me" and "length lnh = 2" and "list_all (lni_plain me) lnh"
    and "grows me me'" and "lni_plain me' lni'"
  shows "face_inv n (me', lni', lnh)"
  using assms by (auto simp: face_inv_def list_all_iff grows_def)

lemma face_inv_lnh:
  assumes "interior_inv n me" and "lni_plain me lni" and "length lnh = 2"
    and "list_all (lni_plain me) lnh" and "grows me me'" and "lni_plain me' h'"
  shows "face_inv n (me', lni, lnh[k := h'])"
  using assms
  by (auto simp: face_inv_def list_all_iff grows_def dest!: set_update_subset_insert [THEN subsetD])

lemma lreg_lni_inv:
  "face_inv n st \<Longrightarrow> shareable (vnodes (fst st)) p \<Longrightarrow> face_inv n (lreg_lni l p bc st)"
proof -
  assume a: "face_inv n st" "shareable (vnodes (fst st)) p"
  obtain me lni lnh where st: "st = (me, lni, lnh)" by (cases st)
  from a(1) have i: "interior_inv n me" "lni_plain me lni" "length lnh = 2" "list_all (lni_plain me) lnh"
    by (simp_all add: face_inv_def st)
  from a(2) have p: "shareable (vnodes me) p" by (simp add: st)
  from face_inv_lni [OF i(1,3,4) node_lregister_grows [OF i(1,2) p]]
  show ?thesis by (simp add: lreg_lni_def st split_beta)
qed

lemma greg_lni_inv:
  "face_inv n st \<Longrightarrow> shareable (vnodes (fst st)) p \<Longrightarrow> ghostid_ok n g \<Longrightarrow>
   face_inv n (greg_lni g p bc st)"
proof -
  assume a: "face_inv n st" "shareable (vnodes (fst st)) p" and g: "ghostid_ok n g"
  obtain me lni lnh where st: "st = (me, lni, lnh)" by (cases st)
  from a(1) have i: "interior_inv n me" "lni_plain me lni" "length lnh = 2" "list_all (lni_plain me) lnh"
    by (simp_all add: face_inv_def st)
  from a(2) have p: "shareable (vnodes me) p" by (simp add: st)
  from face_inv_lni [OF i(1,3,4) node_gregister_grows [OF i(1,2) p g]]
  show ?thesis by (simp add: greg_lni_def st split_beta)
qed

lemma lreg_lnh_inv:
  "face_inv n st \<Longrightarrow> shareable (vnodes (fst st)) p \<Longrightarrow> k < 2 \<Longrightarrow> face_inv n (lreg_lnh k l p bc st)"
proof -
  assume a: "face_inv n st" "shareable (vnodes (fst st)) p" "k < 2"
  obtain me lni lnh where st: "st = (me, lni, lnh)" by (cases st)
  from a(1) have i: "interior_inv n me" "lni_plain me lni" "length lnh = 2" "list_all (lni_plain me) lnh"
    by (simp_all add: face_inv_def st)
  from a(2) have p: "shareable (vnodes me) p" by (simp add: st)
  have h: "lni_plain me (lnh ! k)" using i(3,4) a(3) by (simp add: list_all_length)
  from face_inv_lnh [OF i node_lregister_grows [OF i(1) h p]]
  show ?thesis by (simp add: lreg_lnh_def st split_beta)
qed

lemma greg_lnh_inv:
  "face_inv n st \<Longrightarrow> shareable (vnodes (fst st)) p \<Longrightarrow> k < 2 \<Longrightarrow> ghostid_ok n g \<Longrightarrow>
   face_inv n (greg_lnh k g p bc st)"
proof -
  assume a: "face_inv n st" "shareable (vnodes (fst st)) p" "k < 2" and g: "ghostid_ok n g"
  obtain me lni lnh where st: "st = (me, lni, lnh)" by (cases st)
  from a(1) have i: "interior_inv n me" "lni_plain me lni" "length lnh = 2" "list_all (lni_plain me) lnh"
    by (simp_all add: face_inv_def st)
  from a(2) have p: "shareable (vnodes me) p" by (simp add: st)
  have h: "lni_plain me (lnh ! k)" using i(3,4) a(3) by (simp add: list_all_length)
  from face_inv_lnh [OF i node_gregister_grows [OF i(1) h p g]]
  show ?thesis by (simp add: greg_lnh_def st split_beta)
qed

lemma lreg_new_grows: "grows me (lreg_new l p bc me)"
  using node_register_new_grows(1) [of "- 1" me p l bc]
  by (simp add: lreg_new_def node_lregister_def)

lemma fold_grows:
  "(\<And>x m. grows m (f x m)) \<Longrightarrow> grows me (fold f xs me)"
proof (induction xs arbitrary: me)
  case Nil
  then show ?case by simp
next
  case (Cons x xs)
  have "grows me (f x me)" by (rule Cons.prems)
  moreover have "grows (f x me) (fold f xs (f x me))" by (rule Cons.IH) (rule Cons.prems)
  ultimately show ?case by (auto intro: grows_trans)
qed

lemma node_lfacetocorner_grows: "grows me (node_lfacetocorner me l p)"
proof -
  let ?k = "nat (element_nodes me ! nat (l * vnodes me + p))"
  let ?cn = "(construct me ! ?k)\<lparr>bcon := P4EST_CONNECT_CORNER\<rparr>"
  have c: "construct (node_lfacetocorner me l p) = (construct me)[?k := ?cn]"
    and r: "mpirank (node_lfacetocorner me l p) = mpirank me"
      "vnodes (node_lfacetocorner me l p) = vnodes me"
      "with_faces (node_lfacetocorner me l p) = with_faces me"
      "proc_peer (node_lfacetocorner me l p) = proc_peer me"
      "ghost_rank (node_lfacetocorner me l p) = ghost_rank me"
    by (simp_all add: node_lfacetocorner_def Let_def)
  have pl: "plain v ?cn = plain v (construct me ! ?k)" for v
    by (simp add: plain_def)
  have ni: "node_inv x s v i ?cn = node_inv x s v i (construct me ! ?k)" for x s v i
    by (simp add: node_inv_def plain_def sole_local_def owner_min_def split: option.splits)
  have same: "plain v ((construct me)[?k := ?cn] ! i) = plain v (construct me ! i) \<and>
              node_inv x s v i ((construct me)[?k := ?cn] ! i) = node_inv x s v i (construct me ! i)"
    if "i < length (construct me)" for i x s v
  proof (cases "i = ?k")
    case True
    then show ?thesis using that pl ni by simp
  next
    case False
    then show ?thesis by simp
  qed
  show ?thesis
    unfolding grows_def interior_inv_def lni_plain_def c r
    using same by auto
qed

lemma promote_half_grows: "grows me (promote_half l me)"
  unfolding promote_half_def
  by (auto intro!: lreg_new_grows fold_grows node_lfacetocorner_grows
      grows_trans [OF node_lfacetocorner_grows fold_grows])

lemma split_config_grows: "grows me (split_config l f me)"
  by (rule grows_construct) (simp_all add: split_config_def Let_def)

lemma fold_face_inv:
  "(\<And>x st. x \<in> set xs \<Longrightarrow> face_inv n st \<Longrightarrow> face_inv n (f x st)) \<Longrightarrow>
   face_inv n st \<Longrightarrow> face_inv n (fold f xs st)"
  by (induction xs arbitrary: st) simp_all

lemma static_with_faces:
  "static_part a = static_part b \<Longrightarrow> with_faces a = with_faces b"
  by (rule static_fields)

lemma hface_fold_inv:
  assumes "face_inv n st" and "with_faces (fst st)" and "f < 4" and "swapi < 2"
  shows "ghostid_ok n g \<Longrightarrow>
         face_inv n (fold (\<lambda>j. greg_lnh (j XOR swapi) g (n_hface ! f ! j) bc) [0 ..< 2] st)"
    and "face_inv n (fold (\<lambda>j. lreg_lnh (j XOR swapi) l (n_hface ! f ! j) bc) [0 ..< 2] st)"
proof -
  let ?P = "\<lambda>st :: face_nodes. face_inv n st \<and> with_faces (fst st)"
  assume g: "ghostid_ok n g"
  have "?P (fold (\<lambda>j. greg_lnh (j XOR swapi) g (n_hface ! f ! j) bc) [0 ..< 2] st)"
  proof (rule fold_inv [where P = ?P])
    show "?P st" using assms by simp
  next
    fix j and st' :: face_nodes
    assume j: "j \<in> set [0 ..< 2]" and st': "?P st'"
    then have "25 \<le> vnodes (fst st')" using face_inv_fields(2) [of n st'] by simp
    then have "face_inv n (greg_lnh (j XOR swapi) g (n_hface ! f ! j) bc st')"
      using j st' assms(3,4) g by (intro greg_lnh_inv) (simp_all add: table_positions_plain xor_below_2)
    moreover have "with_faces (fst (greg_lnh (j XOR swapi) g (n_hface ! f ! j) bc st'))"
      using st' by (simp add: static_with_faces [OF greg_lnh_static])
    ultimately show "?P (greg_lnh (j XOR swapi) g (n_hface ! f ! j) bc st')" by simp
  qed
  then show "face_inv n (fold (\<lambda>j. greg_lnh (j XOR swapi) g (n_hface ! f ! j) bc) [0 ..< 2] st)"
    by simp
next
  let ?P = "\<lambda>st :: face_nodes. face_inv n st \<and> with_faces (fst st)"
  have "?P (fold (\<lambda>j. lreg_lnh (j XOR swapi) l (n_hface ! f ! j) bc) [0 ..< 2] st)"
  proof (rule fold_inv [where P = ?P])
    show "?P st" using assms by simp
  next
    fix j and st' :: face_nodes
    assume j: "j \<in> set [0 ..< 2]" and st': "?P st'"
    then have "25 \<le> vnodes (fst st')" using face_inv_fields(2) [of n st'] by simp
    then have "face_inv n (lreg_lnh (j XOR swapi) l (n_hface ! f ! j) bc st')"
      using j st' assms(3,4) by (intro lreg_lnh_inv) (simp_all add: table_positions_plain xor_below_2)
    moreover have "with_faces (fst (lreg_lnh (j XOR swapi) l (n_hface ! f ! j) bc st'))"
      using st' by (simp add: static_with_faces [OF lreg_lnh_static])
    ultimately show "?P (lreg_lnh (j XOR swapi) l (n_hface ! f ! j) bc st')" by simp
  qed
  then show "face_inv n (fold (\<lambda>j. lreg_lnh (j XOR swapi) l (n_hface ! f ! j) bc) [0 ..< 2] st)"
    by simp
qed

lemma face_full_side_inv:
  assumes "face_inv n st" and "fs_face fs < 4" and "swapi < 2"
    and "fu_is_ghost fs \<Longrightarrow> ghostid_ok n (fu_quadid fs)"
  shows "face_inv n (face_full_side swapi fs st)"
proof (cases "fu_is_ghost fs")
  case True
  then have g: "ghostid_ok n (fu_quadid fs)" by (rule assms(4))
  let ?st1 = "greg_lni (fu_quadid fs) (n_mface ! fs_face fs) P4EST_CONNECT_CORNER st"
  have 1: "face_inv n ?st1"
    using assms(1,2,3) g face_inv_fields [OF assms(1)]
    by (simp add: greg_lni_inv table_positions_plain)
  have w: "with_faces (fst ?st1) = with_faces (fst st)"
    by (rule static_with_faces [OF greg_lni_static])
  show ?thesis
    using True 1 hface_fold_inv(1) [OF 1 _ assms(2,3) g] w
    by (simp add: face_full_side_def Let_def del: fold_simps)
next
  case False
  obtain me lni lnh where st: "st = (me, lni, lnh)" by (cases st)
  let ?l = "tree_quad_to_le me (fs_treeid fs) (fu_quadid fs)"
  let ?me1 = "split_config ?l (fs_face fs) (promote_half ?l me)"
  have g: "grows me ?me1"
    by (rule grows_trans [OF promote_half_grows split_config_grows])
  with assms(1) have 0: "face_inv n (?me1, lni, lnh)"
    unfolding st by (rule face_inv_grows)
  let ?st1 = "lreg_lni ?l (n_mface ! fs_face fs) P4EST_CONNECT_CORNER (?me1, lni, lnh)"
  have 1: "face_inv n ?st1"
    using 0 assms(2) face_inv_fields [OF 0] by (simp add: lreg_lni_inv table_positions_plain)
  obtain me2 lni2 lnh2 where st1: "?st1 = (me2, lni2, lnh2)" by (cases ?st1)
  let ?st2 = "(lreg_new ?l (n_split ! fs_face fs) P4EST_CONNECT_FACE me2, lni2, lnh2)"
  have 2: "face_inv n ?st2"
    using 1 unfolding st1 by (rule face_inv_grows) (rule lreg_new_grows)
  have "with_faces (fst ?st1) = with_faces ?me1" 
    using static_with_faces [OF lreg_lni_static, of ?l "n_mface ! fs_face fs" P4EST_CONNECT_CORNER "(?me1, lni, lnh)"]
    by simp
  moreover have "with_faces ?me1 = with_faces me" using g by (simp add: grows_def)
  ultimately have w: "with_faces (fst ?st2) = with_faces me"
    by (simp add: st1 static_with_faces [OF lreg_new_static])
  show ?thesis
    using False 1 hface_fold_inv(2) [OF 2 _ assms(2,3)] w
    unfolding face_full_side_def Let_def st prod.case st1
    by (simp del: fold_simps)
qed

lemma face_hanging_half_inv:
  assumes "face_inv n st" and "fs_face fs < 4" and "swapi < 2" and "j < 2"
    and "fh_is_ghost fs ! j \<Longrightarrow> ghostid_ok n (fh_quadid fs ! j)"
  shows "face_inv n (face_hanging_half swapi fs j st)"
proof -
  let ?p = "n_ccorn ! (p4est_face_corners ! fs_face fs ! (j XOR 1))"
  note v = face_inv_fields [OF assms(1)]
  have j1: "j XOR 1 < 2" using assms(4) by (simp add: xor_below_2)
  have p: "shareable (vnodes (fst st)) ?p" using assms(2) j1 v(1) by (rule table_positions_plain)
  have k: "j XOR swapi < 2" using assms(3,4) by (simp add: xor_below_2)
  have m: "shareable (vnodes (fst st')) (n_mface ! fs_face fs)" if "face_inv n st'" for st'
    using assms(2) face_inv_fields(1) [OF that] by (rule table_positions_plain)
  show ?thesis
  proof (cases "fh_is_ghost fs ! j")
    case True
    then have g: "ghostid_ok n (fh_quadid fs ! j)" by (rule assms(5))
    have 1: "face_inv n (greg_lni (fh_quadid fs ! j) ?p P4EST_CONNECT_CORNER st)"
      using assms(1) p g by (rule greg_lni_inv)
    show ?thesis using True 1 k m [OF 1] g
      by (simp add: face_hanging_half_def Let_def greg_lnh_inv)
  next
    case False
    let ?l = "tree_quad_to_le (fst st) (fs_treeid fs) (fh_quadid fs ! j)"
    let ?st1 = "lreg_lni ?l ?p P4EST_CONNECT_CORNER st"
    let ?st2 = "if with_faces (fst st)
                 then lreg_lnh (j XOR swapi) ?l (n_mface ! fs_face fs) P4EST_CONNECT_FACE ?st1
                 else ?st1"
    have 1: "face_inv n ?st1" using assms(1) p by (rule lreg_lni_inv)
    have 2: "face_inv n ?st2" using 1 k m [OF 1] by (simp add: lreg_lnh_inv)
    obtain me lni lnh where st2: "?st2 = (me, lni, lnh)" by (cases ?st2)
    have "face_inv n (me\<lparr>face_code := x\<rparr>, lni, lnh)" for x
      using 2 unfolding st2 by (rule face_inv_grows) (simp add: grows_construct)
    then show ?thesis
      using False unfolding face_hanging_half_def Let_def st2 prod.case by simp
  qed
qed

lemma side_ghosts_okD:
  assumes "side_ghosts_ok n fs"
  shows "\<not> is_hanging fs \<Longrightarrow> fu_is_ghost fs \<Longrightarrow> ghostid_ok n (fu_quadid fs)"
    and "is_hanging fs \<Longrightarrow> j < 2 \<Longrightarrow> fh_is_ghost fs ! j \<Longrightarrow> ghostid_ok n (fh_quadid fs ! j)"
  using assms by (cases fs; simp add: list_all_iff)+

lemma face_side_step_inv:
  assumes "face_inv n st" and "fs_face (fss ! i) < 4" and "side_ghosts_ok n (fss ! i)"
  shows "face_inv n (face_side_step fi fss i st)"
proof -
  let ?swapi = "if i = 0 \<or> orientation fi = 0 then 0 else 1 :: nat"
  have s: "?swapi < 2" by simp
  show ?thesis
  proof (cases "is_hanging (fss ! i)")
    case True
    have "face_inv n (fold (face_hanging_half ?swapi (fss ! i)) [0 ..< 2] st)"
      using assms(1,2) s side_ghosts_okD(2) [OF assms(3) True]
      by (intro fold_face_inv face_hanging_half_inv) simp_all
    then show ?thesis using True by (simp add: face_side_step_def Let_def)
  next
    case False
    have "face_inv n (face_full_side ?swapi (fss ! i) st)"
      using assms(1,2) s side_ghosts_okD(1) [OF assms(3) False] by (rule face_full_side_inv)
    then show ?thesis using False by (simp add: face_side_step_def Let_def)
  qed
qed

lemma register_pair_inv:
  assumes "interior_inv n me" and "lni_plain me lni" and "shareable (vnodes me) p"
  shows "interior_inv n (fst (node_lregister me lni l p bc)) \<and>
         lni_plain (fst (node_lregister me lni l p bc)) (snd (node_lregister me lni l p bc))"
    and "ghostid_ok n g \<Longrightarrow>
         interior_inv n (fst (node_gregister me lni g p bc)) \<and>
         lni_plain (fst (node_gregister me lni g p bc)) (snd (node_gregister me lni g p bc))"
  using node_lregister_grows [OF assms, of l bc] node_gregister_grows [OF assms, of g bc] assms(1)
  by (auto dest: grows_interior)

lemma face_conforming_side_inv:
  assumes "interior_inv n (fst st) \<and> lni_plain (fst st) (snd st)" and "fs_face fs < 4"
    and "fu_is_ghost fs \<Longrightarrow> ghostid_ok n (fu_quadid fs)"
  shows "interior_inv n (fst (face_conforming_side fs st)) \<and>
         lni_plain (fst (face_conforming_side fs st)) (snd (face_conforming_side fs st))"
proof -
  obtain me lni where st: "st = (me, lni)" by (cases st)
  from assms(1) have i: "interior_inv n me" "lni_plain me lni" by (simp_all add: st)
  from i(1) have "9 \<le> vnodes me" by (simp add: interior_inv_def)
  with assms(2) have p: "shareable (vnodes me) (n_mface ! fs_face fs)"
    by (rule table_positions_plain)
  show ?thesis
    unfolding face_conforming_side_def st prod.case
    using register_pair_inv [OF i p] assms(3) by (cases "fu_is_ghost fs") simp_all
qed

lemma corner_side_step_inv:
  assumes "interior_inv n (fst st) \<and> lni_plain (fst st) (snd st)" and "cs_corner cs < 4"
    and "cs_is_ghost cs \<Longrightarrow> ghostid_ok n (cs_quadid cs)"
  shows "interior_inv n (fst (corner_side_step cs st)) \<and>
         lni_plain (fst (corner_side_step cs st)) (snd (corner_side_step cs st))"
proof -
  obtain me lni where st: "st = (me, lni)" by (cases st)
  from assms(1) have i: "interior_inv n me" "lni_plain me lni" by (simp_all add: st)
  from i(1) have "9 \<le> vnodes me" by (simp add: interior_inv_def)
  with assms(2) have p: "shareable (vnodes me) (n_ccorn ! cs_corner cs)"
    by (rule table_positions_plain)
  show ?thesis
    unfolding corner_side_step_def st prod.case
    using register_pair_inv [OF i p] assms(3) by (cases "cs_is_ghost cs") simp_all
qed

lemma iter_corner1_interior:
  assumes "interior_inv n me" and "corners_ok (Corner_event ci)" and "ghosts_ok n (Corner_event ci)"
  shows "interior_inv n (iter_corner1 ci me)"
proof -
  let ?P = "\<lambda>st :: tnodes_meta \<times> int. interior_inv n (fst st) \<and> lni_plain (fst st) (snd st)"
  have "?P (fold corner_side_step (ci_sides ci) (me, - 1))"
  proof (rule fold_inv [where P = ?P])
    show "?P (me, - 1)" using assms(1) by (simp add: lni_plain_def)
  next
    fix cs and st :: "tnodes_meta \<times> int"
    assume "cs \<in> set (ci_sides ci)" and "?P st"
    then show "?P (corner_side_step cs st)"
      using assms(2,3) by (intro corner_side_step_inv) (simp_all add: list_all_iff)
  qed
  then show ?thesis by (simp add: iter_corner1_def)
qed

lemma iter_volume1_grows: "grows me (iter_volume1 vi me)"
proof -
  let ?l = "lenum me"
  define me1 where "me1 = me\<lparr>lenum := ?l + 1,
      chilev := (chilev me)[nat ?l := push_bit 3 (word_of_int (vi_level vi)) OR word_of_int (vi_childid vi)],
      slots_fresh := (slots_fresh me \<and> list_all (\<lambda>x. x = - 1)
         (take (nat (vnodes me)) (drop (nat (?l * vnodes me)) (element_nodes me))))\<rparr>"
  have 1: "grows me me1" by (rule grows_construct) (simp_all add: me1_def)
  have c: "grows m (m\<lparr>configuration := x\<rparr>)" for m x
    by (rule grows_construct) simp_all
  have full: "grows me1 (fold (\<lambda>j. lreg_new ?l (n_cface ! j) P4EST_CONNECT_FACE) js
                (lreg_new ?l n_center P4EST_CONNECT_CORNER (me1\<lparr>configuration := x\<rparr>)))" for js x
    by (rule grows_trans [OF c grows_trans [OF lreg_new_grows fold_grows]]) (rule lreg_new_grows)
  have full': "grows me1 (lreg_new ?l n_center P4EST_CONNECT_CORNER (me1\<lparr>configuration := x\<rparr>))" for x
    by (rule grows_trans [OF c lreg_new_grows])
  have half: "grows me1 (lreg_new ?l n_center P4EST_CONNECT_FACE (me1\<lparr>configuration := x\<rparr>))" for x
    by (rule grows_trans [OF c lreg_new_grows])
  have 2: "grows me1 (iter_volume1 vi me)"
    unfolding iter_volume1_def Let_def me1_def [symmetric]
    using full full' half c lreg_new_grows by simp
  show ?thesis by (rule grows_trans [OF 1 2])
qed

lemma iter_face1_interior:
  assumes "interior_inv n me" and "faces_ok (Face_event fi)" and "ghosts_ok n (Face_event fi)"
  shows "interior_inv n (iter_face1 fi me)"
proof (cases "fi_sides fi")
  case Nil
  then show ?thesis using assms(1) by (simp add: iter_face1_def)
next
  case (Cons fs0 rest)
  show ?thesis
  proof (cases rest)
    case Nil
    have "grows me (lreg_new l p bc me)" for l p bc by (rule lreg_new_grows)
    then show ?thesis using assms(1) Nil Cons
      by (auto simp: iter_face1_def dest: grows_interior)
  next
    case (Cons fs1 rest')
    from assms(2) \<open>fi_sides fi = fs0 # rest\<close> Cons
    have f: "fs_face fs0 < 4" "fs_face fs1 < 4" by simp_all
    from assms(3) \<open>fi_sides fi = fs0 # rest\<close> Cons
    have g: "side_ghosts_ok n fs0" "side_ghosts_ok n fs1" by simp_all
    let ?P = "\<lambda>st :: tnodes_meta \<times> int. interior_inv n (fst st) \<and> lni_plain (fst st) (snd st)"
    have conf: "?P (fold face_conforming_side [fs0, fs1] (me, - 1))"
      if full: "\<not> is_hanging fs0" "\<not> is_hanging fs1"
    proof (rule fold_inv [where P = ?P])
      show "?P (me, - 1)" using assms(1) by (simp add: lni_plain_def)
    next
      fix fs and st :: "tnodes_meta \<times> int"
      assume "fs \<in> set [fs0, fs1]" and "?P st"
      then show "?P (face_conforming_side fs st)"
        using f g full by (intro face_conforming_side_inv) (auto dest: side_ghosts_okD(1))
    qed
    have hang: "face_inv n (fold (face_side_step fi [fs0, fs1]) [0 ..< 2] (me, - 1, [- 1, - 1]))"
    proof (rule fold_face_inv)
      show "face_inv n (me, - 1, [- 1, - 1])"
        using assms(1) by (simp add: face_inv_def lni_plain_def)
    next
      fix i st
      assume i: "i \<in> set [0 ..< 2]" and st: "face_inv n st"
      from i have "i = 0 \<or> i = 1" by auto
      then have "fs_face ([fs0, fs1] ! i) < 4" "side_ghosts_ok n ([fs0, fs1] ! i)"
        using f g by auto
      with st show "face_inv n (face_side_step fi [fs0, fs1] i st)"
        by (rule face_side_step_inv)
    qed
    from hang have "interior_inv n (fst (fold (face_side_step fi [fs0, fs1]) [0 ..< 2] (me, - 1, [- 1, - 1])))"
      by (simp add: face_inv_def split_beta)
    then show ?thesis
      using conf assms(1) Cons \<open>fi_sides fi = fs0 # rest\<close>
      by (simp add: iter_face1_def del: fold_simps)
  qed
qed

lemma iter_dispatch_interior:
  "interior_inv n me \<Longrightarrow> faces_ok ev \<Longrightarrow> corners_ok ev \<Longrightarrow> ghosts_ok n ev \<Longrightarrow>
   interior_inv n (iter_dispatch ev me)"
  by (cases ev)
    (simp_all add: iter_face1_interior iter_corner1_interior grows_interior [OF iter_volume1_grows])

lemma p4est_iterate_interior:
  assumes "interior_inv n me" and "list_all faces_ok evs" and "list_all corners_ok evs"
    and "list_all (ghosts_ok n) evs"
  shows "interior_inv n (p4est_iterate evs me)"
  unfolding p4est_iterate_def
proof (rule fold_inv [where P = "interior_inv n"])
  show "interior_inv n me" by (rule assms)
next
  fix ev and m :: tnodes_meta
  assume "ev \<in> set evs" and "interior_inv n m"
  then show "interior_inv n (iter_dispatch ev m)"
    using assms(2,3,4) by (intro iter_dispatch_interior) (simp_all add: list_all_iff)
qed

lemma ghost_rank_of_range:
  "list_all (\<lambda>r. 0 \<le> r \<and> r < s) (ghost_rank_of s g)"
proof -
  let ?f = "\<lambda>q gr. gr @ replicate (nat (proc_offsets g ! (q + 1)) - length gr) (int q)"
  have "list_all (\<lambda>r. 0 \<le> r \<and> r < s) (fold ?f [0 ..< nat s] [])"
  proof (rule fold_inv [where P = "list_all (\<lambda>r. 0 \<le> r \<and> r < s)"])
    fix q and gr :: "int list"
    assume "q \<in> set [0 ..< nat s]" and "list_all (\<lambda>r. 0 \<le> r \<and> r < s) gr"
    then show "list_all (\<lambda>r. 0 \<le> r \<and> r < s) (?f q gr)"
      by (auto simp: list_all_iff)
  qed simp
  then show ?thesis by (simp add: ghost_rank_of_def)
qed

lemma tnodes_meta_init_interior:
  "interior_inv (length (ghost_rank (tnodes_meta_init p4est gh fstyle wfaces)))
     (tnodes_meta_init p4est gh fstyle wfaces)"
proof -
  have "list_all (\<lambda>r. 0 \<le> r \<and> r < int (nat (f_mpisize p4est))) (ghost_rank_of (f_mpisize p4est) g)" for g
    using ghost_rank_of_range [of "f_mpisize p4est" g] by (auto simp: list_all_iff)
  then show ?thesis
    by (simp add: interior_inv_def tnodes_meta_init_def Let_def split: option.splits)
qed

section \<open>The centre slot after the traversal\<close>

lemma node_ref_mono:
  "node_ref a x \<Longrightarrow> length (construct a) \<le> length (construct b) \<Longrightarrow> node_ref b x"
  by (auto simp: node_ref_def)

lemma slots_inv_mono:
  assumes a: "slots_inv S a"
    and st: "vnodes b = vnodes a" "with_faces b = with_faces a"
      "configuration b = configuration a" "0 \<le> lenum b"
    and len: "length (construct a) \<le> length (construct b)"
      "length (element_nodes b) = length (element_nodes a)"
    and step: "\<And>i. element_nodes b ! i = element_nodes a ! i \<or>
                   (element_nodes b ! i \<noteq> - 1 \<and> node_ref b (element_nodes b ! i))"
  shows "slots_inv S b"
proof -
  from a have sv: "list_all (node_ref a) (element_nodes a)"
    and pop: "list_all (\<lambda>i. element_nodes a ! i \<noteq> - 1) S"
    and cc: "\<not> with_faces a \<Longrightarrow>
        list_all (\<lambda>l. configuration a ! l AND NOT (push_bit 4 1) \<noteq> 0 \<longrightarrow>
                      element_nodes a ! (l * nat (vnodes a) + 4) \<noteq> - 1)
          [0 ..< length (configuration a)]"
    and g: "9 \<le> vnodes a" "length (element_nodes a) = length (configuration a) * nat (vnodes a)"
    by (simp_all add: slots_inv_def)
  have keep: "element_nodes b ! i \<noteq> - 1" if "element_nodes a ! i \<noteq> - 1" for i
    using step [of i] that by auto
  have "node_ref b (element_nodes b ! i)" if "i < length (element_nodes b)" for i
  proof -
    from that sv len(2) have "node_ref a (element_nodes a ! i)" by (simp add: list_all_length)
    then have "node_ref b (element_nodes a ! i)" using len(1) by (rule node_ref_mono)
    then show ?thesis using step [of i] by auto
  qed
  then have 1: "list_all (node_ref b) (element_nodes b)" by (simp add: list_all_length)
  have 2: "list_all (\<lambda>i. element_nodes b ! i \<noteq> - 1) S"
    using pop keep by (auto simp: list_all_iff)
  have 3: "list_all (\<lambda>l. configuration b ! l AND NOT (push_bit 4 1) \<noteq> 0 \<longrightarrow>
                      element_nodes b ! (l * nat (vnodes b) + 4) \<noteq> - 1)
          [0 ..< length (configuration b)]" if "\<not> with_faces b"
    using cc that keep st by (auto simp: list_all_iff)
  show ?thesis
    using 1 2 3 g st len by (simp add: slots_inv_def)
qed

lemma node_register_parts:
  "snd (node_register me lni rk l p bc) = (if lni = - 1 then int (length (construct me)) else lni)"
  "length (construct (fst (node_register me lni rk l p bc))) =
     (if lni = - 1 then Suc (length (construct me)) else length (construct me))"
  "element_nodes (fst (node_register me lni rk l p bc)) =
     (if (if rk = - 1 then mpirank me else rk) = mpirank me
      then (element_nodes me)[nat (l * vnodes me + p) :=
              (if lni = - 1 then int (length (construct me)) else lni)]
      else element_nodes me)"
  by (simp_all add: node_register_def Let_def)

lemma node_register_slots:
  assumes "slots_inv S me" and "node_ref me lni"
  shows "slots_inv S (fst (node_register me lni rk l p bc))"
    and "node_ref (fst (node_register me lni rk l p bc)) (snd (node_register me lni rk l p bc))"
    and "length (construct me) \<le> length (construct (fst (node_register me lni rk l p bc)))"
proof -
  let ?me' = "fst (node_register me lni rk l p bc)"
  let ?v = "if lni = - 1 then int (length (construct me)) else lni"
  show len: "length (construct me) \<le> length (construct ?me')"
    by (simp add: node_register_parts)
  have v: "?v \<noteq> - 1" "node_ref ?me' ?v"
    using assms(2) by (auto simp: node_ref_def node_register_parts)
  then show "node_ref ?me' (snd (node_register me lni rk l p bc))"
    by (simp add: node_register_parts)
  have lenum: "0 \<le> lenum me" using assms(1) by (simp add: slots_inv_def)
  show "slots_inv S ?me'"
    using assms(1)
  proof (rule slots_inv_mono)
    fix i
    show "element_nodes ?me' ! i = element_nodes me ! i \<or>
          (element_nodes ?me' ! i \<noteq> - 1 \<and> node_ref ?me' (element_nodes ?me' ! i))"
    proof (cases "i = nat (l * vnodes me + p) \<and> i < length (element_nodes me)")
      case True
      then show ?thesis using v by (simp add: node_register_parts(3))
    next
      case False
      then have "(element_nodes me)[nat (l * vnodes me + p) := ?v] ! i = element_nodes me ! i"
        by (cases "i = nat (l * vnodes me + p)") (simp_all add: list_update_beyond)
      then show ?thesis by (simp add: node_register_parts(3))
    qed
  qed (use len lenum in \<open>simp_all add: node_register_parts(3)\<close>)
qed

lemma node_lregister_slots:
  assumes "slots_inv S me" and "node_ref me lni"
  shows "slots_inv S (fst (node_lregister me lni l p bc))"
    and "node_ref (fst (node_lregister me lni l p bc)) (snd (node_lregister me lni l p bc))"
    and "length (construct me) \<le> length (construct (fst (node_lregister me lni l p bc)))"
  using node_register_slots [OF assms] by (simp_all add: node_lregister_def)

lemma node_gregister_slots:
  assumes "slots_inv S me" and "node_ref me lni"
  shows "slots_inv S (fst (node_gregister me lni g p bc))"
    and "node_ref (fst (node_gregister me lni g p bc)) (snd (node_gregister me lni g p bc))"
    and "length (construct me) \<le> length (construct (fst (node_gregister me lni g p bc)))"
  using node_register_slots [OF assms] assms
  by (simp_all add: node_gregister_def split: option.splits)

lemma lreg_new_slots:
  assumes "slots_inv S me"
  shows "slots_inv S (lreg_new l p bc me)"
    and "length (construct me) \<le> length (construct (lreg_new l p bc me))"
  using node_lregister_slots(1,3) [OF assms, of "- 1"]
  by (simp_all add: lreg_new_def node_ref_def)

lemma node_lfacetocorner_slots:
  assumes "slots_inv S me"
  shows "slots_inv S (node_lfacetocorner me l p)"
    and "length (construct me) \<le> length (construct (node_lfacetocorner me l p))"
proof -
  show "length (construct me) \<le> length (construct (node_lfacetocorner me l p))"
    by (simp add: node_lfacetocorner_def Let_def)
  from assms have "0 \<le> lenum me" by (simp add: slots_inv_def)
  then show "slots_inv S (node_lfacetocorner me l p)"
    by (intro slots_inv_mono [OF assms]) (simp_all add: node_lfacetocorner_def Let_def)
qed

lemma slots_face_lni:
  assumes "slots_face S (me, lni, lnh)" and "slots_inv S me'" and "node_ref me' lni'"
    and "length (construct me) \<le> length (construct me')"
  shows "slots_face S (me', lni', lnh)"
  using assms by (auto simp: slots_face_def list_all_iff intro: node_ref_mono)

lemma slots_face_lnh:
  assumes "slots_face S (me, lni, lnh)" and "slots_inv S me'" and "node_ref me' h'"
    and "length (construct me) \<le> length (construct me')"
  shows "slots_face S (me', lni, lnh[k := h'])"
  using assms
  by (auto simp: slots_face_def list_all_iff intro: node_ref_mono
      dest!: set_update_subset_insert [THEN subsetD])

lemma slots_face_state:
  assumes "slots_face S (me, lni, lnh)" and "slots_inv S me'"
    and "length (construct me) \<le> length (construct me')"
  shows "slots_face S (me', lni, lnh)"
  using assms by (auto simp: slots_face_def list_all_iff intro: node_ref_mono)

lemma lreg_lni_slots: "slots_face S st \<Longrightarrow> slots_face S (lreg_lni l p bc st)"
proof -
  assume a: "slots_face S st"
  obtain me lni lnh where st: "st = (me, lni, lnh)" by (cases st)
  from a have i: "slots_inv S me" "node_ref me lni" by (simp_all add: slots_face_def st)
  from slots_face_lni [OF a [unfolded st] node_lregister_slots [OF i]]
  show ?thesis by (simp add: lreg_lni_def st split_beta)
qed

lemma greg_lni_slots: "slots_face S st \<Longrightarrow> slots_face S (greg_lni g p bc st)"
proof -
  assume a: "slots_face S st"
  obtain me lni lnh where st: "st = (me, lni, lnh)" by (cases st)
  from a have i: "slots_inv S me" "node_ref me lni" by (simp_all add: slots_face_def st)
  from slots_face_lni [OF a [unfolded st] node_gregister_slots [OF i]]
  show ?thesis by (simp add: greg_lni_def st split_beta)
qed

lemma lreg_lnh_slots: "slots_face S st \<Longrightarrow> k < 2 \<Longrightarrow> slots_face S (lreg_lnh k l p bc st)"
proof -
  assume a: "slots_face S st" and k: "k < 2"
  obtain me lni lnh where st: "st = (me, lni, lnh)" by (cases st)
  from a k have i: "slots_inv S me" "node_ref me (lnh ! k)"
    by (simp_all add: slots_face_def st list_all_length)
  from slots_face_lnh [OF a [unfolded st] node_lregister_slots [OF i]]
  show ?thesis by (simp add: lreg_lnh_def st split_beta)
qed

lemma greg_lnh_slots: "slots_face S st \<Longrightarrow> k < 2 \<Longrightarrow> slots_face S (greg_lnh k g p bc st)"
proof -
  assume a: "slots_face S st" and k: "k < 2"
  obtain me lni lnh where st: "st = (me, lni, lnh)" by (cases st)
  from a k have i: "slots_inv S me" "node_ref me (lnh ! k)"
    by (simp_all add: slots_face_def st list_all_length)
  from slots_face_lnh [OF a [unfolded st] node_gregister_slots [OF i]]
  show ?thesis by (simp add: greg_lnh_def st split_beta)
qed


lemma node_ref_cong:
  "length (construct a) = length (construct b) \<Longrightarrow> node_ref a = node_ref b"
  by (simp add: fun_eq_iff node_ref_def)

lemma slots_inv_config:
  assumes "slots_inv S m"
    and "\<not> with_faces m \<Longrightarrow> k < length (configuration m) \<Longrightarrow>
         c AND NOT (push_bit 4 1) \<noteq> 0 \<Longrightarrow> element_nodes m ! (k * nat (vnodes m) + 4) \<noteq> - 1"
  shows "slots_inv S (m\<lparr>configuration := (configuration m)[k := c]\<rparr>)"
proof -
  have "list_all (\<lambda>l. (configuration m)[k := c] ! l AND NOT (push_bit 4 1) \<noteq> 0 \<longrightarrow>
                      element_nodes m ! (l * nat (vnodes m) + 4) \<noteq> - 1)
          [0 ..< length (configuration m)]" if w: "\<not> with_faces m"
  proof -
    from assms(1) w have old: "configuration m ! l AND NOT (push_bit 4 1) \<noteq> 0 \<Longrightarrow>
        element_nodes m ! (l * nat (vnodes m) + 4) \<noteq> - 1" if "l < length (configuration m)" for l
      using that by (simp add: slots_inv_def list_all_iff)
    show ?thesis
      unfolding list_all_iff
    proof (intro ballI impI)
      fix l
      assume l: "l \<in> set [0 ..< length (configuration m)]"
        and c: "(configuration m)[k := c] ! l AND NOT (push_bit 4 1) \<noteq> 0"
      show "element_nodes m ! (l * nat (vnodes m) + 4) \<noteq> - 1"
      proof (cases "l = k")
        case True
        with l c show ?thesis using assms(2) [OF w] by simp
      next
        case False
        with l c show ?thesis using old [of l] by simp
      qed
    qed
  qed
  then show ?thesis
    using assms(1) node_ref_cong [of "m\<lparr>configuration := (configuration m)[k := c]\<rparr>" m]
    by (simp add: slots_inv_def)
qed

lemma slots_inv_update [simp]:
  "slots_inv S (m\<lparr>face_code := x\<rparr>) = slots_inv S m"
  "slots_inv S (m\<lparr>chilev := y\<rparr>) = slots_inv S m"
  "slots_inv S (m\<lparr>slots_fresh := z\<rparr>) = slots_inv S m"
  using node_ref_cong [of "m\<lparr>face_code := x\<rparr>" m] node_ref_cong [of "m\<lparr>chilev := y\<rparr>" m]
    node_ref_cong [of "m\<lparr>slots_fresh := z\<rparr>" m]
  by (simp_all add: slots_inv_def)

lemma centre_slot:
  assumes "0 \<le> l" and "9 \<le> vn" and "nat l < n"
  shows "nat (l * vn + 4) = nat l * nat vn + 4" and "nat l * nat vn + 4 < n * nat vn"
proof -
  from assms(1,2) show "nat (l * vn + 4) = nat l * nat vn + 4"
    by (simp add: nat_add_distrib nat_mult_distrib)
  have "nat l * nat vn + 4 < nat l * nat vn + nat vn" using assms(2) by simp
  also have "\<dots> = Suc (nat l) * nat vn" by simp
  also have "\<dots> \<le> n * nat vn" using assms(3) by (intro mult_le_mono1) simp
  finally show "nat l * nat vn + 4 < n * nat vn" .
qed

lemma lreg_new_centre:
  assumes "slots_inv S m" and "0 \<le> l" and "nat l < length (configuration m)"
  shows "element_nodes (lreg_new l 4 bc m) ! (nat l * nat (vnodes m) + 4) = int (length (construct m))"
proof -
  from assms(1) have g: "9 \<le> vnodes m"
    "length (element_nodes m) = length (configuration m) * nat (vnodes m)"
    by (simp_all add: slots_inv_def)
  note c = centre_slot [OF assms(2) g(1) assms(3)]
  show ?thesis using c g(2) by (simp add: lreg_new_element_nodes)
qed

lemma fold_lreg_new_slots:
  assumes "slots_inv S m"
  shows "slots_inv S (fold (\<lambda>j. lreg_new l (f j) bc) js m)"
    and "length (construct m) \<le> length (construct (fold (\<lambda>j. lreg_new l (f j) bc) js m))"
proof -
  let ?P = "\<lambda>m'. slots_inv S m' \<and> length (construct m) \<le> length (construct m')"
  have "?P (fold (\<lambda>j. lreg_new l (f j) bc) js m)"
  proof (rule fold_inv [where P = ?P])
    fix j m'
    assume "?P m'"
    then show "?P (lreg_new l (f j) bc m')"
      using lreg_new_slots [of S m' l "f j" bc] by auto
  qed (use assms in simp)
  then show "slots_inv S (fold (\<lambda>j. lreg_new l (f j) bc) js m)"
    and "length (construct m) \<le> length (construct (fold (\<lambda>j. lreg_new l (f j) bc) js m))"
    by simp_all
qed

lemma promote_half_slots:
  assumes "slots_inv S me"
  shows "slots_inv S (promote_half l me)"
    and "length (construct me) \<le> length (construct (promote_half l me))"
    and "configuration (promote_half l me) = configuration me"
    and "vnodes (promote_half l me) = vnodes me"
    and "with_faces (promote_half l me) = with_faces me"
proof -
  note a = lreg_new_slots [OF assms, of l n_center P4EST_CONNECT_CORNER]
  note b = node_lfacetocorner_slots [OF assms, of l n_center]
  note c = fold_lreg_new_slots [OF b(1), of l "\<lambda>j. n_cface ! j" P4EST_CONNECT_FACE "[0 ..< 4]"]
  show "slots_inv S (promote_half l me)"
    using assms a(1) c(1) by (simp add: promote_half_def del: fold_simps)
  show "length (construct me) \<le> length (construct (promote_half l me))"
    using a(2) order_trans [OF b(2) c(2)] by (simp add: promote_half_def del: fold_simps)
  have "configuration (fold (\<lambda>j. lreg_new l (n_cface ! j) bc) js m) = configuration m" for bc js m
    by (rule fold_keeps [where g = configuration]) simp
  then show "configuration (promote_half l me) = configuration me"
    by (simp add: promote_half_def node_lfacetocorner_def Let_def del: fold_simps)
  have s: "static_part (promote_half l me) = static_part me" by simp
  show "vnodes (promote_half l me) = vnodes me" "with_faces (promote_half l me) = with_faces me"
    using static_fields [OF s] by simp_all
qed

lemma promote_split_slots:
  assumes "slots_inv S me" and "0 \<le> l"
  shows "slots_inv S (split_config l f (promote_half l me))"
    and "length (construct me) \<le> length (construct (split_config l f (promote_half l me)))"
proof -
  let ?m1 = "promote_half l me"
  note p = promote_half_slots [OF assms(1), of l]
  let ?c = "(configuration ?m1 ! nat l AND NOT (push_bit 4 1 OR push_bit 5 1)) OR push_bit f 1"
  have sc: "split_config l f ?m1 = ?m1\<lparr>configuration := (configuration ?m1)[nat l := ?c]\<rparr>"
    by (cases "nat l < length (configuration ?m1)")
      (simp_all add: split_config_def Let_def list_update_beyond)
  show "length (construct me) \<le> length (construct (split_config l f ?m1))"
    using p(2) by (simp add: sc)
  have "element_nodes ?m1 ! (nat l * nat (vnodes ?m1) + 4) \<noteq> - 1"
    if w: "\<not> with_faces ?m1" and k: "nat l < length (configuration ?m1)"
  proof (cases "configuration me ! nat l AND NOT (push_bit 4 1) = 0")
    case True
    from lreg_new_centre [OF assms(1,2), of P4EST_CONNECT_CORNER] k p(3)
    have "element_nodes (lreg_new l 4 P4EST_CONNECT_CORNER me) ! (nat l * nat (vnodes me) + 4) =
        int (length (construct me))" by simp
    then show ?thesis using True w p(4,5)
      by (simp add: promote_half_def n_center_def)
  next
    case False
    from assms(1) w p(5) k p(3) have "configuration me ! nat l AND NOT (push_bit 4 1) \<noteq> 0 \<longrightarrow>
        element_nodes me ! (nat l * nat (vnodes me) + 4) \<noteq> - 1"
      by (simp add: slots_inv_def list_all_iff)
    then show ?thesis using False by (simp add: promote_half_def)
  qed
  then show "slots_inv S (split_config l f ?m1)"
    unfolding sc using p(1) by (intro slots_inv_config) simp_all
qed


lemma fold_slots_face:
  "(\<And>x st. x \<in> set xs \<Longrightarrow> slots_face S st \<Longrightarrow> slots_face S (f x st)) \<Longrightarrow>
   slots_face S st \<Longrightarrow> slots_face S (fold f xs st)"
  by (induction xs arbitrary: st) simp_all

lemma face_full_side_slots:
  assumes "slots_face S st" and "swapi < 2"
    and "\<not> fu_is_ghost fs \<Longrightarrow> 0 \<le> tree_quad_to_le (fst st) (fs_treeid fs) (fu_quadid fs)"
  shows "slots_face S (face_full_side swapi fs st)"
proof (cases "fu_is_ghost fs")
  case True
  let ?st1 = "greg_lni (fu_quadid fs) (n_mface ! fs_face fs) P4EST_CONNECT_CORNER st"
  have 1: "slots_face S ?st1" using assms(1) by (rule greg_lni_slots)
  have 2: "slots_face S (fold (\<lambda>j. greg_lnh (j XOR swapi) (fu_quadid fs) (n_hface ! fs_face fs ! j)
                                   P4EST_CONNECT_FACE) [0 ..< 2] ?st1)"
    using 1 assms(2) by (intro fold_slots_face greg_lnh_slots) (simp_all add: xor_below_2)
  show ?thesis
    using True 1 2 by (simp add: face_full_side_def Let_def del: fold_simps)
next
  case False
  obtain me lni lnh where st: "st = (me, lni, lnh)" by (cases st)
  let ?l = "tree_quad_to_le me (fs_treeid fs) (fu_quadid fs)"
  let ?me1 = "split_config ?l (fs_face fs) (promote_half ?l me)"
  from assms(1) have i: "slots_inv S me" by (simp add: slots_face_def st)
  from assms(3) False have l: "0 \<le> ?l" by (simp add: st)
  have 0: "slots_face S (?me1, lni, lnh)"
    using assms(1) [unfolded st] promote_split_slots [OF i l] by (rule slots_face_state)
  let ?st1 = "lreg_lni ?l (n_mface ! fs_face fs) P4EST_CONNECT_CORNER (?me1, lni, lnh)"
  have 1: "slots_face S ?st1" using 0 by (rule lreg_lni_slots)
  obtain me2 lni2 lnh2 where st1: "?st1 = (me2, lni2, lnh2)" by (cases ?st1)
  from 1 have i2: "slots_inv S me2" by (simp add: slots_face_def st1)
  let ?st2 = "(lreg_new ?l (n_split ! fs_face fs) P4EST_CONNECT_FACE me2, lni2, lnh2)"
  have 2: "slots_face S ?st2"
    using 1 [unfolded st1] lreg_new_slots [OF i2] by (rule slots_face_state)
  have 3: "slots_face S (fold (\<lambda>j. lreg_lnh (j XOR swapi) ?l (n_hface ! fs_face fs ! j)
                                   P4EST_CONNECT_FACE) [0 ..< 2] ?st2)"
    using 2 assms(2) by (intro fold_slots_face lreg_lnh_slots) (simp_all add: xor_below_2)
  show ?thesis
    using False 1 3
    unfolding face_full_side_def Let_def st prod.case st1
    by (simp del: fold_simps)
qed

lemma face_hanging_half_slots:
  assumes "slots_face S st" and "swapi < 2" and "j < 2"
  shows "slots_face S (face_hanging_half swapi fs j st)"
proof -
  let ?p = "n_ccorn ! (p4est_face_corners ! fs_face fs ! (j XOR 1))"
  have k: "j XOR swapi < 2" using assms(2,3) by (simp add: xor_below_2)
  show ?thesis
  proof (cases "fh_is_ghost fs ! j")
    case True
    have 1: "slots_face S (greg_lni (fh_quadid fs ! j) ?p P4EST_CONNECT_CORNER st)"
      using assms(1) by (rule greg_lni_slots)
    show ?thesis using True 1 k
      by (simp add: face_hanging_half_def Let_def greg_lnh_slots)
  next
    case False
    let ?l = "tree_quad_to_le (fst st) (fs_treeid fs) (fh_quadid fs ! j)"
    let ?st1 = "lreg_lni ?l ?p P4EST_CONNECT_CORNER st"
    let ?st2 = "if with_faces (fst st)
                 then lreg_lnh (j XOR swapi) ?l (n_mface ! fs_face fs) P4EST_CONNECT_FACE ?st1
                 else ?st1"
    have 1: "slots_face S ?st1" using assms(1) by (rule lreg_lni_slots)
    have 2: "slots_face S ?st2" using 1 k by (simp add: lreg_lnh_slots)
    obtain me lni lnh where st2: "?st2 = (me, lni, lnh)" by (cases ?st2)
    have 3: "slots_face S (me, lni, lnh)" using 2 unfolding st2 .
    then have 4: "slots_inv S me" by (simp add: slots_face_def)
    have 5: "slots_face S (me\<lparr>face_code := x\<rparr>, lni, lnh)" for x
      using 3 4 by (simp add: slots_face_def node_ref_cong [of "me\<lparr>face_code := x\<rparr>" me])
    show ?thesis
      using False 5 unfolding face_hanging_half_def Let_def st2 prod.case by simp
  qed
qed

lemma face_side_step_slots:
  assumes "slots_face S st"
    and "\<not> is_hanging (fss ! i) \<Longrightarrow> \<not> fu_is_ghost (fss ! i) \<Longrightarrow>
         0 \<le> tree_quad_to_le (fst st) (fs_treeid (fss ! i)) (fu_quadid (fss ! i))"
  shows "slots_face S (face_side_step fi fss i st)"
proof -
  let ?swapi = "if i = 0 \<or> orientation fi = 0 then 0 else 1 :: nat"
  have s: "?swapi < 2" by simp
  show ?thesis
  proof (cases "is_hanging (fss ! i)")
    case True
    have "slots_face S (fold (face_hanging_half ?swapi (fss ! i)) [0 ..< 2] st)"
      using assms(1) s by (intro fold_slots_face face_hanging_half_slots) simp_all
    then show ?thesis using True by (simp add: face_side_step_def Let_def)
  next
    case False
    have "slots_face S (face_full_side ?swapi (fss ! i) st)"
      using assms(1) s assms(2) [OF False] by (rule face_full_side_slots)
    then show ?thesis using False by (simp add: face_side_step_def Let_def)
  qed
qed

lemma register_pair_slots:
  assumes "slots_inv S (fst st) \<and> node_ref (fst st) (snd st)"
  shows "slots_inv S (fst (face_conforming_side fs st)) \<and>
         node_ref (fst (face_conforming_side fs st)) (snd (face_conforming_side fs st))"
    and "slots_inv S (fst (corner_side_step cs st)) \<and>
         node_ref (fst (corner_side_step cs st)) (snd (corner_side_step cs st))"
proof -
  obtain me lni where st: "st = (me, lni)" by (cases st)
  from assms have i: "slots_inv S me" "node_ref me lni" by (simp_all add: st)
  show "slots_inv S (fst (face_conforming_side fs st)) \<and>
        node_ref (fst (face_conforming_side fs st)) (snd (face_conforming_side fs st))"
    unfolding face_conforming_side_def st prod.case
    using node_lregister_slots(1,2) [OF i] node_gregister_slots(1,2) [OF i]
    by (cases "fu_is_ghost fs") simp_all
  show "slots_inv S (fst (corner_side_step cs st)) \<and>
        node_ref (fst (corner_side_step cs st)) (snd (corner_side_step cs st))"
    unfolding corner_side_step_def st prod.case
    using node_lregister_slots(1,2) [OF i] node_gregister_slots(1,2) [OF i]
    by (cases "cs_is_ghost cs") simp_all
qed

lemma iter_corner1_slots:
  assumes "slots_inv S me"
  shows "slots_inv S (iter_corner1 ci me)"
proof -
  let ?P = "\<lambda>st :: tnodes_meta \<times> int. slots_inv S (fst st) \<and> node_ref (fst st) (snd st)"
  have "?P (fold corner_side_step (ci_sides ci) (me, - 1))"
  proof (rule fold_inv [where P = ?P])
    show "?P (me, - 1)" using assms by (simp add: node_ref_def)
  next
    fix cs and st :: "tnodes_meta \<times> int"
    assume "?P st"
    then show "?P (corner_side_step cs st)" by (rule register_pair_slots)
  qed
  then show ?thesis by (simp add: iter_corner1_def)
qed

lemma iter_face1_slots:
  assumes "slots_inv S me" and "full_sides_ok (quadrants_offset me) (Face_event fi)"
  shows "slots_inv S (iter_face1 fi me)"
proof (cases "fi_sides fi")
  case Nil
  then show ?thesis using assms(1) by (simp add: iter_face1_def)
next
  case (Cons fs0 rest)
  show ?thesis
  proof (cases rest)
    case Nil
    then show ?thesis using assms(1) Cons lreg_new_slots(1) [OF assms(1)]
      by (simp add: iter_face1_def)
  next
    case (Cons fs1 rest')
    from assms(2) \<open>fi_sides fi = fs0 # rest\<close> Cons
    have ok: "\<not> is_hanging fs \<Longrightarrow> \<not> fu_is_ghost fs \<Longrightarrow>
        0 \<le> quadrants_offset me ! fs_treeid fs + fu_quadid fs" if "fs \<in> set [fs0, fs1]" for fs
      using that by auto
    let ?P = "\<lambda>st :: tnodes_meta \<times> int. slots_inv S (fst st) \<and> node_ref (fst st) (snd st)"
    have conf: "?P (fold face_conforming_side [fs0, fs1] (me, - 1))"
    proof (rule fold_inv [where P = ?P])
      show "?P (me, - 1)" using assms(1) by (simp add: node_ref_def)
    next
      fix fs and st :: "tnodes_meta \<times> int"
      assume "?P st"
      then show "?P (face_conforming_side fs st)" by (rule register_pair_slots)
    qed
    let ?Q = "\<lambda>st :: face_nodes. slots_face S st \<and> quadrants_offset (fst st) = quadrants_offset me"
    have hang: "?Q (fold (face_side_step fi [fs0, fs1]) [0 ..< 2] (me, - 1, [- 1, - 1]))"
    proof (rule fold_inv [where P = ?Q])
      show "?Q (me, - 1, [- 1, - 1])"
        using assms(1) by (simp add: slots_face_def node_ref_def)
    next
      fix i and st :: face_nodes
      assume i: "i \<in> set [0 ..< 2]" and st: "?Q st"
      from i have "i = 0 \<or> i = 1" by auto
      then have m: "[fs0, fs1] ! i \<in> set [fs0, fs1]" by auto
      have "slots_face S (face_side_step fi [fs0, fs1] i st)"
        using st ok [OF m] by (intro face_side_step_slots) (simp_all add: tree_quad_to_le_def)
      moreover have "quadrants_offset (fst (face_side_step fi [fs0, fs1] i st)) =
          quadrants_offset (fst st)"
        by (rule static_fields [OF face_side_step_static])
      ultimately show "?Q (face_side_step fi [fs0, fs1] i st)" using st by simp
    qed
    from hang have "slots_inv S (fst (fold (face_side_step fi [fs0, fs1]) [0 ..< 2] (me, - 1, [- 1, - 1])))"
      by (simp add: slots_face_def split_beta)
    then show ?thesis
      using conf assms(1) Cons \<open>fi_sides fi = fs0 # rest\<close>
      by (simp add: iter_face1_def del: fold_simps)
  qed
qed


lemma half_codes:
  fixes c :: "8 word"
  assumes "c AND NOT (push_bit 4 1) = 0"
  shows "c = 0 \<or> c = 16"
proof -
  have "c = c AND (push_bit 4 1 OR NOT (push_bit 4 1))" by simp
  also have "\<dots> = (c AND push_bit 4 1) OR (c AND NOT (push_bit 4 1))"
    by (simp only: bit.conj_disj_distrib)
  also have "\<dots> = c AND push_bit 4 1" using assms by simp
  finally have "c = c AND 16" by simp
  moreover have "c AND 16 \<le> 16" by (rule word_and_le1)
  ultimately have "c \<le> 16" by simp
  then have c: "c \<in> set (map of_nat [0 ..< 17])" by (rule small_codes)
  have "\<forall>c \<in> set (map of_nat [0 ..< 17] :: 8 word list).
          c AND NOT (push_bit 4 1) = 0 \<longrightarrow> c = 0 \<or> c = 16"
    by code_simp
  with c assms show ?thesis by blast
qed

lemma lreg_new_configuration_update:
  "lreg_new l p bc (m\<lparr>configuration := c\<rparr>) = (lreg_new l p bc m)\<lparr>configuration := c\<rparr>"
  by (simp add: lreg_new_def node_lregister_def node_register_def Let_def)

lemma slots_inv_lenum:
  "slots_inv S m \<Longrightarrow> 0 \<le> x \<Longrightarrow> slots_inv S (m\<lparr>lenum := x\<rparr>)"
  using node_ref_cong [of "m\<lparr>lenum := x\<rparr>" m] by (simp add: slots_inv_def)

lemma iter_volume1_slots:
  assumes "slots_inv S me"
  shows "slots_inv S (iter_volume1 vi me)"
proof -
  let ?l = "lenum me"
  from assms have l: "0 \<le> ?l" by (simp add: slots_inv_def)
  define me1 where "me1 = me\<lparr>lenum := ?l + 1,
      chilev := (chilev me)[nat ?l := push_bit 3 (word_of_int (vi_level vi)) OR word_of_int (vi_childid vi)],
      slots_fresh := (slots_fresh me \<and> list_all (\<lambda>x. x = - 1)
         (take (nat (vnodes me)) (drop (nat (?l * vnodes me)) (element_nodes me))))\<rparr>"
  have 1: "slots_inv S me1"
    using slots_inv_lenum [OF assms, of "?l + 1"] l by (simp add: me1_def)
  have f1: "configuration me1 = configuration me" "vnodes me1 = vnodes me"
    "with_faces me1 = with_faces me" "full_style me1 = full_style me"
    by (simp_all add: me1_def)
  have centre: "slots_inv S (lreg_new ?l n_center bc (me1\<lparr>configuration := (configuration me1)[nat ?l := c]\<rparr>))"
    for bc c
  proof -
    let ?m = "lreg_new ?l n_center bc me1"
    have 2: "slots_inv S ?m" using 1 by (rule lreg_new_slots)
    have "element_nodes ?m ! (nat ?l * nat (vnodes ?m) + 4) \<noteq> - 1"
      if "nat ?l < length (configuration ?m)"
      using lreg_new_centre [OF 1 l, of bc] that by (simp add: n_center_def)
    then have "slots_inv S (?m\<lparr>configuration := (configuration ?m)[nat ?l := c]\<rparr>)"
      using 2 by (intro slots_inv_config) simp_all
    then show ?thesis by (simp add: lreg_new_configuration_update)
  qed
  have half: "slots_inv S (me1\<lparr>configuration := (configuration me1)[nat ?l := push_bit 4 1]\<rparr>)"
    using 1 by (rule slots_inv_config) simp
  have reg: "slots_inv S (lreg_new ?l n_center bc m)" if "slots_inv S m" for bc m
    using that by (rule lreg_new_slots)
  have cface: "slots_inv S (fold (\<lambda>j. lreg_new ?l (n_cface ! j) P4EST_CONNECT_FACE) [0 ..< 4] m)"
    if "slots_inv S m" for m
    using that by (rule fold_lreg_new_slots)
  show ?thesis
    unfolding iter_volume1_def Let_def me1_def [symmetric]
    using 1 centre half reg cface by (simp del: fold_simps)
qed

lemma iter_dispatch_slots:
  "slots_inv S me \<Longrightarrow> full_sides_ok (quadrants_offset me) ev \<Longrightarrow> slots_inv S (iter_dispatch ev me)"
  by (cases ev) (simp_all add: iter_volume1_slots iter_face1_slots iter_corner1_slots)

lemma p4est_iterate_slots:
  assumes "slots_inv S me" and "list_all (full_sides_ok (quadrants_offset me)) evs"
  shows "slots_inv S (p4est_iterate evs me)"
proof -
  let ?P = "\<lambda>m. slots_inv S m \<and> quadrants_offset m = quadrants_offset me"
  have "?P (fold iter_dispatch evs me)"
  proof (rule fold_inv [where P = ?P])
    fix ev and m :: tnodes_meta
    assume ev: "ev \<in> set evs" and m: "?P m"
    with assms(2) have "full_sides_ok (quadrants_offset m) ev" by (simp add: list_all_iff)
    with m have "slots_inv S (iter_dispatch ev m)" by (simp add: iter_dispatch_slots)
    moreover have "quadrants_offset (iter_dispatch ev m) = quadrants_offset m"
      by (rule static_fields [OF iter_dispatch_static])
    ultimately show "?P (iter_dispatch ev m)" using m by simp
  qed (use assms(1) in simp)
  then show ?thesis by (simp add: p4est_iterate_def)
qed

lemma tnodes_meta_init_slots: "slots_inv [] (tnodes_meta_init p4est gh fstyle wfaces)"
proof -
  have "nat (n * v) = nat n * nat v" if "0 \<le> v" for n v :: int
  proof (cases "0 \<le> n")
    case True
    then show ?thesis by (simp add: nat_mult_distrib)
  next
    case False
    then have "n * v \<le> 0" using that by (simp add: mult_le_0_iff)
    with False show ?thesis by simp
  qed
  then show ?thesis
    by (simp add: slots_inv_def tnodes_meta_init_def Let_def list_all_iff node_ref_def)
qed

lemma slots_inv_cons:
  "slots_inv S m \<Longrightarrow> element_nodes m ! i \<noteq> - 1 \<Longrightarrow> slots_inv (i # S) m"
  by (simp add: slots_inv_def)

lemma slots_inv_node:
  assumes "slots_inv S m" and "i \<in> set S" and "i < length (element_nodes m)"
  shows "0 \<le> element_nodes m ! i \<and> nat (element_nodes m ! i) < length (construct m)"
proof -
  from assms have "element_nodes m ! i \<noteq> - 1" "node_ref m (element_nodes m ! i)"
    by (simp_all add: slots_inv_def list_all_iff)
  then show ?thesis by (simp add: node_ref_def)
qed


lemma slots_inv_centre:
  assumes "slots_inv S m" and "\<not> with_faces m" and "e < length (configuration m)"
    and "configuration m ! e \<noteq> 0" and "configuration m ! e \<noteq> 16"
  shows "0 \<le> element_nodes m ! (e * nat (vnodes m) + 4) \<and>
         nat (element_nodes m ! (e * nat (vnodes m) + 4)) < length (construct m)"
proof -
  from assms(1) have g: "9 \<le> vnodes m"
    "length (element_nodes m) = length (configuration m) * nat (vnodes m)"
    and sv: "list_all (node_ref m) (element_nodes m)"
    by (simp_all add: slots_inv_def)
  from assms(4,5) half_codes [of "configuration m ! e"]
  have "configuration m ! e AND NOT (push_bit 4 1) \<noteq> 0" by auto
  with assms(1,2,3) have p: "element_nodes m ! (e * nat (vnodes m) + 4) \<noteq> - 1"
    by (simp add: slots_inv_def list_all_iff)
  have "nat (int e) * nat (vnodes m) + 4 < length (configuration m) * nat (vnodes m)"
    using g(1) assms(3) by (intro centre_slot) simp_all
  then have "e * nat (vnodes m) + 4 < length (element_nodes m)" using g(2) by simp
  with sv have "node_ref m (element_nodes m ! (e * nat (vnodes m) + 4))"
    by (simp add: list_all_length)
  with p show ?thesis by (simp add: node_ref_def)
qed


lemma p4est_iterate_Nil: "p4est_iterate [] m = m"
  by (simp add: p4est_iterate_def)


end
